theory Spec2Isabelle
  imports Main
begin

section \<open>Strings, characters and numbers\<close>

text \<open>
  A JavaScript string is modelled as a \<^typ>\<open>string\<close>; a character stands for one code unit
  in the range 0 to 255.  Of the code units that the regular expression classes of
  \<^verbatim>\<open>source-map-support.ts\<close> distinguish, the model therefore has the line terminators
  LF and CR (not U+2028 and U+2029) and the white space characters TAB, LF, VT, FF, CR,
  SPACE and NBSP (not the white space above U+00FF).
\<close>

definition isLineTerminator :: "char \<Rightarrow> bool" where
  "isLineTerminator c \<longleftrightarrow> c \<in> set [CHR 0x0A, CHR 0x0D]"

text \<open>The class \<^verbatim>\<open>\s\<close>.\<close>

definition isSpace :: "char \<Rightarrow> bool" where
  "isSpace c \<longleftrightarrow>
     c \<in> set [CHR 0x09, CHR 0x0A, CHR 0x0B, CHR 0x0C, CHR 0x0D, CHR 0x20, CHR 0xA0]"

text \<open>The class \<^verbatim>\<open>\d\<close>.\<close>

definition isDigit :: "char \<Rightarrow> bool" where
  "isDigit c \<longleftrightarrow> c \<in> set ''0123456789''"

text \<open>The class \<^verbatim>\<open>\w\<close>.\<close>

definition isWord :: "char \<Rightarrow> bool" where
  "isWord c \<longleftrightarrow>
     c \<in> set ''abcdefghijklmnopqrstuvwxyzABCDEFGHIJKLMNOPQRSTUVWXYZ0123456789_''"

text \<open>The class \<^verbatim>\<open>.\<close> (no \<^verbatim>\<open>s\<close> flag): every character but a line terminator.\<close>

definition isDot :: "char \<Rightarrow> bool" where
  "isDot c \<longleftrightarrow> \<not> isLineTerminator c"

text \<open>
  Numbers.  The source converts a captured run of digits with unary \<^verbatim>\<open>+\<close> and prints a
  number inside a template string.  Both are modelled on unbounded integers: the value of
  a run of digits is its decimal value, and a number prints as its shortest decimal
  numeral.  This is what JavaScript does for values below \<open>2\<^sup>5\<^sup>3\<close>; larger values (rounded
  by the source, and printed in exponent notation from \<open>10\<^sup>2\<^sup>1\<close> on) are outside the model.
\<close>

definition digitVal :: "char \<Rightarrow> nat" where
  "digitVal c = length (takeWhile (\<lambda>d. d \<noteq> c) ''0123456789'')"

definition toNumber :: "string \<Rightarrow> int" where
  "toNumber ds = int (foldl (\<lambda>a c. 10 * a + digitVal c) 0 ds)"

definition digitChar :: "nat \<Rightarrow> char" where
  "digitChar d = ''0123456789'' ! (d mod 10)"

fun showNat :: "nat \<Rightarrow> string" where
  "showNat n = (if n < 10 then [digitChar n] else showNat (n div 10) @ [digitChar n])"

declare showNat.simps [simp del]

definition showInt :: "int \<Rightarrow> string" where
  "showInt k = (if k < 0 then CHR ''-'' # showNat (nat (- k)) else showNat (nat k))"

text \<open>\<^verbatim>\<open>String.prototype.startsWith\<close>, \<^verbatim>\<open>trim\<close>, \<^verbatim>\<open>split('\n')\<close> and \<^verbatim>\<open>join('\n')\<close>.\<close>

definition startsWith :: "string \<Rightarrow> string \<Rightarrow> bool" where
  "startsWith s p \<longleftrightarrow> take (length p) s = p"

definition trim :: "string \<Rightarrow> string" where
  "trim s = rev (dropWhile isSpace (rev (dropWhile isSpace s)))"

fun splitNL :: "string \<Rightarrow> string list" where
  "splitNL [] = [[]]"
| "splitNL (c # cs) =
     (if c = CHR 0x0A then [] # splitNL cs
      else (case splitNL cs of [] \<Rightarrow> [[c]] | l # ls \<Rightarrow> (c # l) # ls))"

fun joinNL :: "string list \<Rightarrow> string" where
  "joinNL [] = []"
| "joinNL [l] = l"
| "joinNL (l # ls) = l @ CHR 0x0A # joinNL ls"

section \<open>Regular expressions\<close>

text \<open>
  The regular expressions of the source are values of the type \<open>re\<close>, matched by a
  backtracking matcher with the priorities of JavaScript: a quantifier is greedy and gives
  characters back one at a time, the left alternative is tried before the right one.
  The quantifiers \<^verbatim>\<open>*\<close> and \<^verbatim>\<open>+\<close> of the source all stand on a character class; \<^verbatim>\<open>?\<close> stands
  on a group.
\<close>

datatype re =
    Lit string
  | One "char \<Rightarrow> bool"
  | Many "char \<Rightarrow> bool"
  | Many1 "char \<Rightarrow> bool"
  | Opt re
  | Seq re re
  | Alt re re
  | Group nat re
  | Bol
  | Eol

type_synonym captures = "(nat \<times> string) list"

text \<open>
  \<open>rmatch m s r (i, c)\<close> lists the ways in which \<open>r\<close> matches \<open>s\<close> from index \<open>i\<close> on, in
  the order in which a backtracking matcher tries them: each is the index after the
  match together with the captures, \<open>c\<close> being the captures so far.  The flag \<open>m\<close> is
  the \<^verbatim>\<open>m\<close> (multiline) flag.
\<close>

fun rmatch :: "bool \<Rightarrow> string \<Rightarrow> re \<Rightarrow> nat \<times> captures \<Rightarrow> (nat \<times> captures) list" where
  "rmatch m s (Lit l) (i, c) =
     (if take (length l) (drop i s) = l then [(i + length l, c)] else [])"
| "rmatch m s (One P) (i, c) =
     (if i < length s \<and> P (s ! i) then [(Suc i, c)] else [])"
| "rmatch m s (Many P) (i, c) =
     map (\<lambda>n. (i + n, c)) (rev [0 ..< Suc (length (takeWhile P (drop i s)))])"
| "rmatch m s (Many1 P) (i, c) =
     map (\<lambda>n. (i + n, c)) (rev [1 ..< Suc (length (takeWhile P (drop i s)))])"
| "rmatch m s (Opt r) (i, c) = rmatch m s r (i, c) @ [(i, c)]"
| "rmatch m s (Seq r1 r2) ic = concat (map (rmatch m s r2) (rmatch m s r1 ic))"
| "rmatch m s (Alt r1 r2) ic = rmatch m s r1 ic @ rmatch m s r2 ic"
| "rmatch m s (Group n r) (i, c) =
     map (\<lambda>(j, c'). (j, (n, take (j - i) (drop i s)) # c')) (rmatch m s r (i, c))"
| "rmatch m s Bol (i, c) =
     (if i = 0 \<or> (m \<and> isLineTerminator (s ! (i - 1))) then [(i, c)] else [])"
| "rmatch m s Eol (i, c) =
     (if i = length s \<or> (m \<and> i < length s \<and> isLineTerminator (s ! i)) then [(i, c)] else [])"

fun seqs :: "re list \<Rightarrow> re" where
  "seqs [] = Lit []"
| "seqs [r] = r"
| "seqs (r # rs) = Seq r (seqs rs)"

text \<open>
  The result of \<^verbatim>\<open>RegExp.prototype.exec\<close>: where the match starts and ends, and its groups
  (\<open>group\<close> is \<open>None\<close> for a group that took no part in the match, \<^verbatim>\<open>undefined\<close> in the
  source).
\<close>

record regmatch =
  m_index :: nat
  m_end :: nat
  m_groups :: captures

definition group :: "regmatch \<Rightarrow> nat \<Rightarrow> string option" where
  "group mt n = map_of (m_groups mt) n"

definition matched :: "string \<Rightarrow> regmatch \<Rightarrow> string" where
  "matched s mt = take (m_end mt - m_index mt) (drop (m_index mt) s)"

fun firstMatch :: "bool \<Rightarrow> re \<Rightarrow> string \<Rightarrow> nat list \<Rightarrow> regmatch option" where
  "firstMatch m r s [] = None"
| "firstMatch m r s (i # is) =
     (case rmatch m s r (i, []) of
        [] \<Rightarrow> firstMatch m r s is
      | (j, c) # _ \<Rightarrow> Some \<lparr>m_index = i, m_end = j, m_groups = c\<rparr>)"

text \<open>\<open>exec m r s i\<close>: the first match of \<open>r\<close> in \<open>s\<close> that starts at index \<open>i\<close> or later.\<close>

definition exec :: "bool \<Rightarrow> re \<Rightarrow> string \<Rightarrow> nat \<Rightarrow> regmatch option" where
  "exec m r s i = firstMatch m r s [i ..< Suc (length s)]"

definition test :: "bool \<Rightarrow> re \<Rightarrow> string \<Rightarrow> bool" where
  "test m r s \<longleftrightarrow> exec m r s 0 \<noteq> None"

text \<open>Facts about the matcher: a match never ends before it starts, and \<open>exec\<close> returns
  the first way of matching at the first index where there is one.\<close>

lemma rmatch_mono: "(j, c') \<in> set (rmatch m s r (i, c)) \<Longrightarrow> i \<le> j"
proof (induction r arbitrary: i c j c')
  case (Seq r1 r2)
  then show ?case by (fastforce dest: order_trans)
qed (auto split: if_splits)

lemma firstMatch_SomeD:
  "firstMatch m r s is = Some mt \<Longrightarrow>
     m_index mt \<in> set is \<and> (\<exists>rest. rmatch m s r (m_index mt, []) = (m_end mt, m_groups mt) # rest)"
  by (induction "is") (auto split: list.splits)

lemma exec_SomeD:
  "exec m r s i = Some mt \<Longrightarrow>
     i \<le> m_index mt \<and> m_index mt \<le> length s \<and>
     (m_end mt, m_groups mt) \<in> set (rmatch m s r (m_index mt, []))"
  unfolding exec_def by (drule firstMatch_SomeD) auto

text \<open>\<open>slice s i j\<close> is \<^verbatim>\<open>s.slice(i, j)\<close> for \<open>i \<le> j\<close>.\<close>

definition slice :: "string \<Rightarrow> nat \<Rightarrow> nat \<Rightarrow> string" where
  "slice s i j = take (j - i) (drop i s)"

lemma slice_append:
  assumes "i \<le> j" "j \<le> k"
  shows "slice s i j @ slice s j k = slice s i k"
proof -
  have "take (k - i) (drop i s) = take ((j - i) + (k - j)) (drop i s)"
    using assms by simp
  also have "\<dots> = take (j - i) (drop i s) @ take (k - j) (drop (j - i) (drop i s))"
    by (rule take_add)
  also have "drop (j - i) (drop i s) = drop j s"
    using assms by simp
  finally show ?thesis by (simp add: slice_def)
qed

lemma slice_all [simp]: "slice s 0 (length s) = s"
  by (simp add: slice_def)

lemma length_slice: "j \<le> length s \<Longrightarrow> length (slice s i j) = j - i"
  by (auto simp: slice_def)

lemma slice_empty [simp]: "slice s i i = []"
  by (simp add: slice_def)

lemma rmatch_Lit_iff:
  "(j, c') \<in> set (rmatch m s (Lit l) (i, c)) \<longleftrightarrow> c' = c \<and> j = i + length l \<and> slice s i j = l"
  by (auto simp: slice_def)

lemma takeWhile_prefix_iff:
  "n \<le> length (takeWhile P xs) \<longleftrightarrow> n \<le> length xs \<and> (\<forall>x\<in>set (take n xs). P x)"
proof (induction xs arbitrary: n)
  case Nil
  then show ?case by simp
next
  case (Cons a xs)
  then show ?case by (cases n) auto
qed

lemma candidates_iff:
  "(j, c') \<in> set (map (\<lambda>n. (i + n, c)) (rev [k ..< Suc l])) \<longleftrightarrow>
     c' = c \<and> i + k \<le> j \<and> j \<le> i + l"
proof
  assume "(j, c') \<in> set (map (\<lambda>n. (i + n, c)) (rev [k ..< Suc l]))"
  then show "c' = c \<and> i + k \<le> j \<and> j \<le> i + l" by auto
next
  assume a: "c' = c \<and> i + k \<le> j \<and> j \<le> i + l"
  then have "j - i \<in> set (rev [k ..< Suc l])" by auto
  moreover have "(j, c') = (i + (j - i), c)" using a by simp
  ultimately show "(j, c') \<in> set (map (\<lambda>n. (i + n, c)) (rev [k ..< Suc l]))"
    by (metis (mono_tags, lifting) image_eqI set_map)
qed

lemma rmatch_Many1_iff:
  "(j, c') \<in> set (rmatch m s (Many1 P) (i, c)) \<longleftrightarrow>
     c' = c \<and> i < j \<and> j \<le> length s \<and> (\<forall>x\<in>set (slice s i j). P x)"
proof -
  have "(j, c') \<in> set (rmatch m s (Many1 P) (i, c)) \<longleftrightarrow>
      c' = c \<and> i + 1 \<le> j \<and> j \<le> i + length (takeWhile P (drop i s))"
    unfolding rmatch.simps by (rule candidates_iff)
  also have "\<dots> \<longleftrightarrow> c' = c \<and> i < j \<and> j - i \<le> length (takeWhile P (drop i s))"
    by auto
  also have "\<dots> \<longleftrightarrow> c' = c \<and> i < j \<and> j \<le> length s \<and> (\<forall>x\<in>set (slice s i j). P x)"
    unfolding takeWhile_prefix_iff slice_def by auto
  finally show ?thesis .
qed

lemma rmatch_Many_iff:
  "(j, c') \<in> set (rmatch m s (Many P) (i, c)) \<longleftrightarrow>
     c' = c \<and> i \<le> j \<and> (j \<le> length s \<or> j = i) \<and> (\<forall>x\<in>set (slice s i j). P x)"
proof -
  have "(j, c') \<in> set (rmatch m s (Many P) (i, c)) \<longleftrightarrow>
      c' = c \<and> i + 0 \<le> j \<and> j \<le> i + length (takeWhile P (drop i s))"
    unfolding rmatch.simps by (rule candidates_iff)
  also have "\<dots> \<longleftrightarrow> c' = c \<and> i \<le> j \<and> j - i \<le> length (takeWhile P (drop i s))"
    by auto
  also have "\<dots> \<longleftrightarrow> c' = c \<and> i \<le> j \<and> (j \<le> length s \<or> j = i) \<and> (\<forall>x\<in>set (slice s i j). P x)"
    unfolding takeWhile_prefix_iff slice_def by auto
  finally show ?thesis .
qed

lemma rmatch_Group_iff:
  "(j, c') \<in> set (rmatch m s (Group n r) (i, c)) \<longleftrightarrow>
     (\<exists>c''. (j, c'') \<in> set (rmatch m s r (i, c)) \<and> c' = (n, slice s i j) # c'')"
  by (force simp: slice_def)

lemma rmatch_Seq_iff:
  "(j, c') \<in> set (rmatch m s (Seq r1 r2) ic) \<longleftrightarrow>
     (\<exists>k c''. (k, c'') \<in> set (rmatch m s r1 ic) \<and> (j, c') \<in> set (rmatch m s r2 (k, c'')))"
  by auto

lemma rmatch_Bol_iff:
  "(j, c') \<in> set (rmatch False s Bol (i, c)) \<longleftrightarrow> c' = c \<and> j = i \<and> i = 0"
  by auto

lemma rmatch_Eol_iff:
  "(j, c') \<in> set (rmatch False s Eol (i, c)) \<longleftrightarrow> c' = c \<and> j = i \<and> i = length s"
  by auto

lemmas rmatch_iffs = rmatch_Lit_iff rmatch_Many1_iff rmatch_Many_iff rmatch_Group_iff
  rmatch_Seq_iff rmatch_Bol_iff rmatch_Eol_iff


text \<open>A regular expression that starts with \<^verbatim>\<open>^\<close> matches at index 0 or not at all.\<close>

lemma firstMatch_Bol:
  "0 \<notin> set is \<Longrightarrow> firstMatch False (Seq Bol r) s is = None"
  by (induction "is") auto

lemma exec_Bol:
  "exec False (Seq Bol r) s 0 =
     (case rmatch False s (Seq Bol r) (0, []) of
        [] \<Rightarrow> None
      | (j, c) # _ \<Rightarrow> Some \<lparr>m_index = 0, m_end = j, m_groups = c\<rparr>)"
proof -
  have e: "[0 ..< Suc (length s)] = 0 # [Suc 0 ..< Suc (length s)]"
    by (rule upt_conv_Cons) simp
  have n: "firstMatch False (Seq Bol r) s [Suc 0 ..< Suc (length s)] = None"
    by (rule firstMatch_Bol) auto
  show ?thesis
    unfolding exec_def e by (simp del: upt_Suc add: n split: list.splits)
qed

lemma exec_Bol_unique:
  assumes "r = Seq Bol r'"
    and "x \<in> set (rmatch False s r (0, []))"
    and "\<And>y. y \<in> set (rmatch False s r (0, [])) \<Longrightarrow> y = x"
  shows "exec False r s 0 = Some \<lparr>m_index = 0, m_end = fst x, m_groups = snd x\<rparr>"
proof -
  obtain y ys where l: "rmatch False s r (0, []) = y # ys"
    using assms(2) by (cases "rmatch False s r (0, [])") auto
  then have "y = x" using assms(3) by simp
  with l show ?thesis
    unfolding assms(1) exec_Bol by (simp only: list.case case_prod_beta)
qed

lemma nth_slice: "k < j - i \<Longrightarrow> j \<le> length s \<Longrightarrow> slice s i j ! k = s ! (i + k)"
  by (simp add: slice_def)

lemma slice_mem:
  assumes "i \<le> k" "k < j" "j \<le> length s"
  shows "s ! k \<in> set (slice s i j)"
proof -
  have "slice s i j ! (k - i) = s ! k"
    using assms by (simp add: nth_slice)
  moreover have "k - i < length (slice s i j)"
    using assms by (simp add: length_slice)
  ultimately show ?thesis by (metis nth_mem)
qed

lemma slice_pair_snd:
  assumes "slice s a (a + 2) = [x, y]"
  shows "a + 2 \<le> length s \<and> s ! (a + 1) = y"
proof -
  have "length (slice s a (a + 2)) = 2" using assms by simp
  then have l: "a + 2 \<le> length s" by (auto simp: slice_def)
  then have "slice s a (a + 2) ! 1 = s ! (a + 1)"
    by (simp add: nth_slice)
  with assms l show ?thesis by simp
qed

lemma slice_single:
  assumes "slice s a (a + 1) = [x]"
  shows "a + 1 \<le> length s \<and> s ! a = x"
proof -
  have "length (slice s a (a + 1)) = 1" using assms by simp
  then have l: "a + 1 \<le> length s" by (auto simp: slice_def)
  then have "slice s a (a + 1) ! 0 = s ! (a + 0)"
    by (intro nth_slice) simp_all
  with assms l show ?thesis by simp
qed

lemma slice_app_right:
  "length xs = n \<Longrightarrow> slice (xs @ ys) (n + i) (n + j) = slice ys i j"
  by (auto simp: slice_def)

lemma slice_prefix: "slice (xs @ ys) 0 (length xs) = xs"
  by (simp add: slice_def)

lemma slice_prefix': "length xs = n \<Longrightarrow> slice (xs @ ys) 0 n = xs"
  by (auto simp: slice_def)

section \<open>Data model\<close>

record Position =
  source :: string
  line :: int
  column :: int

record StackState =
  nextPosition :: "Position option"
  curPosition :: "Position option"

record UrlAndMap =
  um_url :: "string option"
  um_map :: string

text \<open>
  The decoder of source maps is the package \<^verbatim>\<open>source-map\<close>, not this module.  A decoded
  map is the three members that the module uses; \<open>o_source = None\<close> is the answer
  \<^verbatim>\<open>{source: null}\<close> of \<^verbatim>\<open>originalPositionFor\<close>.
\<close>

record OriginalPosition =
  o_source :: "string option"
  o_line :: int
  o_column :: int

record SourceMapConsumer =
  sources :: "string list"
  sourceContentFor :: "string \<Rightarrow> string option"
  originalPositionFor :: "Position \<Rightarrow> OriginalPosition"

record SourceMapConsumerMap =
  sm_url :: "string option"
  sm_map :: "SourceMapConsumer option"

record FrameInfo =
  stackLine :: string
  internal :: bool

text \<open>
  The two module-level caches.  A cache is an object used as a dictionary; the model is a
  map from paths, so a path that names a member of \<^verbatim>\<open>Object.prototype\<close> is outside it.
\<close>

record store =
  fileContentsCache :: "string \<rightharpoonup> string"
  sourceMapCache :: "string \<rightharpoonup> SourceMapConsumerMap"

text \<open>
  What the module takes from Node and from \<^verbatim>\<open>source-map\<close>: \<^verbatim>\<open>fs.existsSync\<close>,
  \<^verbatim>\<open>fs.readFileSync\<close> (which may throw: \<open>Inl\<close>), \<^verbatim>\<open>path.dirname\<close>, \<^verbatim>\<open>path.resolve\<close>,
  \<^verbatim>\<open>Buffer.from(_, "base64").toString()\<close> and \<^verbatim>\<open>new SourceMapConsumer(_)\<close>.
\<close>

datatype error = IOError | RangeError

record env =
  existsSync :: "string \<Rightarrow> bool"
  readFileSync :: "string \<Rightarrow> error + string"
  dirname :: "string \<Rightarrow> string"
  resolve :: "string \<Rightarrow> string \<Rightarrow> string"
  base64ToString :: "string \<Rightarrow> string"
  newSourceMapConsumer :: "string \<Rightarrow> SourceMapConsumer"

section \<open>Handler chains and the content store\<close>

text \<open>
  A handler may write to the cache of file contents, so it takes the cache and returns it.
  \<open>handlerExec\<close> returns the first result that is truthy, \<open>None\<close> (\<^verbatim>\<open>null\<close>) when there is
  none.
\<close>

type_synonym 'r handler = "string \<Rightarrow> (string \<rightharpoonup> string) \<Rightarrow> 'r \<times> (string \<rightharpoonup> string)"

fun handlerExec :: "('r \<Rightarrow> bool) \<Rightarrow> 'r handler list \<Rightarrow> string \<Rightarrow> (string \<rightharpoonup> string)
    \<Rightarrow> 'r option \<times> (string \<rightharpoonup> string)" where
  "handlerExec truthy [] arg fc = (None, fc)"
| "handlerExec truthy (h # hs) arg fc =
     (case h arg fc of (ret, fc') \<Rightarrow>
        if truthy ret then (Some ret, fc') else handlerExec truthy hs arg fc')"

definition retrieveFile :: "string handler list \<Rightarrow> string \<Rightarrow> (string \<rightharpoonup> string)
    \<Rightarrow> string option \<times> (string \<rightharpoonup> string)" where
  "retrieveFile fhs = handlerExec (\<lambda>ret. ret \<noteq> []) fhs"

text \<open>\<^verbatim>\<open>/^file:/\<close> and \<^verbatim>\<open>/file:\/\/\/(\w:)?/\<close>\<close>

definition reFileProtocol :: re where
  "reFileProtocol = seqs [Bol, Lit ''file:'']"

definition reFileUrl :: re where
  "reFileUrl = seqs [Lit ''file:///'', Opt (Group 1 (Seq (One isWord) (Lit '':'')))]"

definition stripFileProtocol :: "string \<Rightarrow> string" where
  "stripFileProtocol path =
     (case exec False reFileUrl path 0 of
        None \<Rightarrow> path
      | Some mt \<Rightarrow>
          take (m_index mt) path
          @ (case group mt 1 of Some (_ # _) \<Rightarrow> [] | _ \<Rightarrow> ''/'')
          @ drop (m_end mt) path)"

definition normalizePath :: "string \<Rightarrow> string" where
  "normalizePath path0 =
     (let path = trim path0
      in if test False reFileProtocol path then stripFileProtocol path else path)"

text \<open>The body of the \<^verbatim>\<open>try\<close> block, and the block with its \<^verbatim>\<open>catch\<close>.\<close>

definition readIfExists :: "env \<Rightarrow> string \<Rightarrow> error + string" where
  "readIfExists env path = (if existsSync env path then readFileSync env path else Inr [])"

definition readOrEmpty :: "env \<Rightarrow> string \<Rightarrow> string" where
  "readOrEmpty env path = (case readIfExists env path of Inl er \<Rightarrow> [] | Inr contents \<Rightarrow> contents)"

text \<open>The handler pushed to \<^verbatim>\<open>retrieveFileHandlers\<close>.\<close>

definition retrieveFileHandler :: "env \<Rightarrow> string handler" where
  "retrieveFileHandler env path0 fc =
     (let path = normalizePath path0
      in case fc path of
           Some contents \<Rightarrow> (contents, fc)
         | None \<Rightarrow> (let contents = readOrEmpty env path in (contents, fc(path \<mapsto> contents))))"

definition retrieveFileHandlers :: "env \<Rightarrow> string handler list" where
  "retrieveFileHandlers env = [retrieveFileHandler env]"

section \<open>The map retriever\<close>

text \<open>\<^verbatim>\<open>/^\w+:\/\/[^/]*/\<close> and \<^verbatim>\<open>/^\/\w:/\<close>\<close>

definition reProtocol :: re where
  "reProtocol = seqs [Bol, Many1 isWord, Lit ''://'', Many (\<lambda>c. c \<noteq> CHR ''/'')]"

definition reDrive :: re where
  "reDrive = seqs [Bol, Lit ''/'', One isWord, Lit '':'']"

definition supportRelativeURL :: "env \<Rightarrow> string option \<Rightarrow> string \<Rightarrow> string" where
  "supportRelativeURL env file url =
     (case file of
        None \<Rightarrow> url
      | Some [] \<Rightarrow> url
      | Some f \<Rightarrow>
          (let dir = dirname env f;
               protocol = (case exec False reProtocol dir 0 of
                             Some mt \<Rightarrow> matched dir mt | None \<Rightarrow> []);
               startPath = drop (length protocol) dir
           in if protocol \<noteq> [] \<and> test False reDrive startPath
              then (let protocol' = protocol @ ''/''
                    in protocol' @ map (\<lambda>c. if c = CHR 0x5C then CHR ''/'' else c)
                         (resolve env (drop (length protocol') dir) url))
              else protocol @ resolve env (drop (length protocol) dir) url))"

text \<open>
  \<^verbatim>\<open>/(?:\/\/[@#][\s]*sourceMappingURL=([^\s'"]+)[\s]*$)|(?:\/\*[@#][\s]*sourceMappingURL=([^\s*'"]+)[\s]*(?:\*\/)[\s]*$)/mg\<close>
\<close>

definition reSourceMappingURL :: re where
  "reSourceMappingURL =
     Alt (seqs [Lit ''//'', One (\<lambda>c. c \<in> set ''@#''), Many isSpace, Lit ''sourceMappingURL='',
                Group 1 (Many1 (\<lambda>c. \<not> isSpace c \<and> c \<noteq> CHR 0x27 \<and> c \<noteq> CHR 0x22)),
                Many isSpace, Eol])
         (seqs [Lit ''/*'', One (\<lambda>c. c \<in> set ''@#''), Many isSpace, Lit ''sourceMappingURL='',
                Group 2 (Many1 (\<lambda>c. \<not> isSpace c \<and> c \<noteq> CHR ''*'' \<and> c \<noteq> CHR 0x27 \<and> c \<noteq> CHR 0x22)),
                Many isSpace, Lit ''*/'', Many isSpace, Eol])"

text \<open>The regular expression of the URL scan matches no empty string.\<close>

lemma rmatch_Lit_Seq_progress:
  "(j, c') \<in> set (rmatch m s (Seq (Lit (x # xs)) r) (i, c)) \<Longrightarrow> i < j"
  by (auto split: if_splits dest!: rmatch_mono)

lemma exec_reSourceMappingURL_progress:
  "exec True reSourceMappingURL s i = Some mt \<Longrightarrow> i < m_end mt \<and> i \<le> length s"
  unfolding reSourceMappingURL_def
  apply (drule exec_SomeD)
  apply (auto simp del: rmatch.simps simp add: rmatch.simps(7) dest!: rmatch_Lit_Seq_progress)
  done

text \<open>
  The loop \<^verbatim>\<open>while ((match = re.exec(fileData)) !== null) lastMatch = match\<close>: the regular
  expression has the flag \<^verbatim>\<open>g\<close>, so each search starts where the last match ended.
\<close>

function scanLast :: "string \<Rightarrow> nat \<Rightarrow> regmatch option \<Rightarrow> regmatch option" where
  "scanLast fileData lastIndex lastMatch =
     (case exec True reSourceMappingURL fileData lastIndex of
        None \<Rightarrow> lastMatch
      | Some mt \<Rightarrow> scanLast fileData (m_end mt) (Some mt))"
  by pat_completeness auto
termination
  by (relation "measure (\<lambda>(fileData, lastIndex, lastMatch). Suc (length fileData) - lastIndex)")
     (auto dest!: exec_reSourceMappingURL_progress)

declare scanLast.simps [simp del]

text \<open>A value of type \<^verbatim>\<open>string | null\<close> that may also be \<^verbatim>\<open>undefined\<close> at run time.\<close>

datatype jsString = JSNull | JSUndefined | JSString string

text \<open>\<^verbatim>\<open>retrieveFile\<close> returns \<^verbatim>\<open>null\<close> for an empty file, which \<^verbatim>\<open>exec\<close> reads as the
  string \<^verbatim>\<open>"null"\<close>.\<close>

definition retrieveSourceMapURL :: "string handler list \<Rightarrow> string \<Rightarrow> (string \<rightharpoonup> string)
    \<Rightarrow> jsString \<times> (string \<rightharpoonup> string)" where
  "retrieveSourceMapURL fhs src fc =
     (case retrieveFile fhs src fc of (fileData, fc') \<Rightarrow>
        (case scanLast (case fileData of None \<Rightarrow> ''null'' | Some d \<Rightarrow> d) 0 None of
           None \<Rightarrow> (JSNull, fc')
         | Some lastMatch \<Rightarrow>
             ((case group lastMatch 1 of None \<Rightarrow> JSUndefined | Some u \<Rightarrow> JSString u), fc')))"

text \<open>\<^verbatim>\<open>/^data:application\/json[^,]+base64,/\<close>\<close>

definition reSourceMap :: re where
  "reSourceMap =
     seqs [Bol, Lit ''data:application/json'', Many1 (\<lambda>c. c \<noteq> CHR '',''), Lit ''base64,'']"

text \<open>\<^verbatim>\<open>sourceMappingURL.slice(sourceMappingURL.indexOf(',') + 1)\<close>\<close>

definition afterComma :: "string \<Rightarrow> string" where
  "afterComma u =
     (if CHR '','' \<in> set u then drop (Suc (length (takeWhile (\<lambda>c. c \<noteq> CHR '','') u))) u else u)"

text \<open>The handler pushed to \<^verbatim>\<open>retrieveMapHandlers\<close>.\<close>

definition retrieveMapHandler :: "env \<Rightarrow> string handler list \<Rightarrow> UrlAndMap option handler" where
  "retrieveMapHandler env fhs src fc =
     (case retrieveSourceMapURL fhs src fc of
        (JSString (u # us), fc1) \<Rightarrow>
          (case (if test False reSourceMap (u # us)
                 then (src, Some (base64ToString env (afterComma (u # us))), fc1)
                 else (let url = supportRelativeURL env (Some src) (u # us)
                       in case retrieveFile fhs url fc1 of (d, fc2) \<Rightarrow> (url, d, fc2)))
           of (sourceMappingURL, Some (d # ds), fc2) \<Rightarrow>
                (Some \<lparr>um_url = Some sourceMappingURL, um_map = d # ds\<rparr>, fc2)
            | (sourceMappingURL, _, fc2) \<Rightarrow> (None, fc2))
      | (_, fc1) \<Rightarrow> (None, fc1))"

definition retrieveMapHandlers :: "env \<Rightarrow> UrlAndMap option handler list" where
  "retrieveMapHandlers env = [retrieveMapHandler env (retrieveFileHandlers env)]"

definition retrieveSourceMap :: "UrlAndMap option handler list \<Rightarrow> string \<Rightarrow> (string \<rightharpoonup> string)
    \<Rightarrow> UrlAndMap option \<times> (string \<rightharpoonup> string)" where
  "retrieveSourceMap mhs src fc =
     (case handlerExec (\<lambda>ret. ret \<noteq> None) mhs src fc of
        (Some ret, fc') \<Rightarrow> (ret, fc')
      | (None, fc') \<Rightarrow> (None, fc'))"

section \<open>The position resolver\<close>

text \<open>The \<^verbatim>\<open>forEach\<close> over the sources of a decoded map.\<close>

definition cacheInlineSources :: "env \<Rightarrow> string option \<Rightarrow> SourceMapConsumer
    \<Rightarrow> (string \<rightharpoonup> string) \<Rightarrow> (string \<rightharpoonup> string)" where
  "cacheInlineSources env url consumer fc =
     foldl (\<lambda>fc' src.
              case sourceContentFor consumer src of
                Some (c # cs) \<Rightarrow> fc'(supportRelativeURL env url src \<mapsto> c # cs)
              | _ \<Rightarrow> fc')
       fc (sources consumer)"

text \<open>Lines 160 to 188: the entry of the cache of source maps, made when there is none.\<close>

definition cachedSourceMap :: "env \<Rightarrow> UrlAndMap option handler list \<Rightarrow> string \<Rightarrow> store
    \<Rightarrow> SourceMapConsumerMap \<times> store" where
  "cachedSourceMap env mhs src st =
     (case sourceMapCache st src of
        Some sourceMap \<Rightarrow> (sourceMap, st)
      | None \<Rightarrow>
          (case retrieveSourceMap mhs src (fileContentsCache st) of
             (Some urlAndMap, fc) \<Rightarrow>
               (let consumer = newSourceMapConsumer env (um_map urlAndMap);
                    sourceMap = \<lparr>sm_url = um_url urlAndMap, sm_map = Some consumer\<rparr>
                in (sourceMap,
                    \<lparr>fileContentsCache = cacheInlineSources env (um_url urlAndMap) consumer fc,
                     sourceMapCache = (sourceMapCache st)(src \<mapsto> sourceMap)\<rparr>))
           | (None, fc) \<Rightarrow>
               (let sourceMap = \<lparr>sm_url = None, sm_map = None\<rparr>
                in (sourceMap,
                    \<lparr>fileContentsCache = fc,
                     sourceMapCache = (sourceMapCache st)(src \<mapsto> sourceMap)\<rparr>))))"

definition mapSourcePosition :: "env \<Rightarrow> UrlAndMap option handler list \<Rightarrow> Position \<Rightarrow> store
    \<Rightarrow> Position \<times> store" where
  "mapSourcePosition env mhs position st =
     (case cachedSourceMap env mhs (source position) st of (sourceMap, st') \<Rightarrow>
        (case sm_map sourceMap of
           Some consumer \<Rightarrow>
             (let originalPosition = originalPositionFor consumer position
              in case o_source originalPosition of
                   Some src \<Rightarrow>
                     (\<lparr>source = supportRelativeURL env (sm_url sourceMap) src,
                       line = o_line originalPosition,
                       column = o_column originalPosition\<rparr>, st')
                 | None \<Rightarrow> (position, st'))
         | None \<Rightarrow> (position, st')))"

section \<open>The eval origin parser\<close>

text \<open>\<^verbatim>\<open>/^eval at ([^(]+) \((.+):(\d+):(\d+)\)$/\<close> and \<^verbatim>\<open>/^eval at ([^(]+) \((.+)\)$/\<close>\<close>

definition reEvalOrigin :: re where
  "reEvalOrigin =
     seqs [Bol, Lit ''eval at '', Group 1 (Many1 (\<lambda>c. c \<noteq> CHR ''('')), Lit '' ('',
           Group 2 (Many1 isDot), Lit '':'', Group 3 (Many1 isDigit), Lit '':'',
           Group 4 (Many1 isDigit), Lit '')'', Eol]"

definition reEvalNested :: re where
  "reEvalNested =
     seqs [Bol, Lit ''eval at '', Group 1 (Many1 (\<lambda>c. c \<noteq> CHR ''('')), Lit '' ('',
           Group 2 (Many1 isDot), Lit '')'', Eol]"

text \<open>
  \<open>grp mt n\<close> is \<^verbatim>\<open>match[n]\<close> read as a string, as a template string and a comparison do; a
  group that took no part in the match reads \<^verbatim>\<open>undefined\<close>.
\<close>

definition grp :: "regmatch \<Rightarrow> nat \<Rightarrow> string" where
  "grp mt n = (case group mt n of Some g \<Rightarrow> g | None \<Rightarrow> ''undefined'')"

text \<open>The group on which \<open>mapEvalOrigin\<close> calls itself is shorter than the string matched.\<close>

lemma exec_reEvalNested_shorter:
  assumes "exec False reEvalNested origin 0 = Some mt"
  shows "\<exists>g1 g2. group mt 1 = Some g1 \<and> group mt 2 = Some g2 \<and> length g2 < length origin"
proof -
  from exec_SomeD [OF assms]
  have "(m_end mt, m_groups mt) \<in> set (rmatch False origin reEvalNested (m_index mt, []))"
    by simp
  then obtain a b g1 where "b + 1 = length origin"
    and "m_groups mt = [(2, slice origin a b), (1, g1)]"
    unfolding reEvalNested_def seqs.simps
    by (simp only: rmatch_iffs) (elim conjE exE, simp)
  then show ?thesis
    by (simp add: group_def slice_def)
qed

function mapEvalOrigin :: "env \<Rightarrow> UrlAndMap option handler list \<Rightarrow> string \<Rightarrow> store
    \<Rightarrow> string \<times> store" where
  "mapEvalOrigin env mhs origin st =
     (case exec False reEvalOrigin origin 0 of
        Some mt \<Rightarrow>
          (case mapSourcePosition env mhs
                  \<lparr>source = grp mt 2, line = toNumber (grp mt 3),
                   column = toNumber (grp mt 4) - 1\<rparr> st
           of (position, st') \<Rightarrow>
             (''eval at '' @ grp mt 1 @ '' ('' @ source position @ '':''
                @ showInt (line position) @ '':'' @ showInt (column position + 1) @ '')'', st'))
      | None \<Rightarrow>
          (case exec False reEvalNested origin 0 of
             Some mt \<Rightarrow>
               (case mapEvalOrigin env mhs (grp mt 2) st of (inner, st') \<Rightarrow>
                  (''eval at '' @ grp mt 1 @ '' ('' @ inner @ '')'', st'))
           | None \<Rightarrow> (origin, st)))"
  by pat_completeness auto
termination
proof (relation "measure (\<lambda>(env, mhs, origin, st). length origin)")
  fix env :: env and mhs :: "UrlAndMap option handler list" and origin :: string
    and st :: store and mt :: regmatch
  assume "exec False reEvalNested origin 0 = Some mt"
  from exec_reEvalNested_shorter [OF this]
  show "((env, mhs, grp mt 2, st), (env, mhs, origin, st))
          \<in> measure (\<lambda>(env, mhs, origin, st). length origin)"
    by (auto simp: grp_def)
qed simp

declare mapEvalOrigin.simps [simp del]

section \<open>The frame parser and the stack remapper\<close>

text \<open>\<^verbatim>\<open>/^ {3}at (.+) \(([^(]+)\)$/\<close> and \<^verbatim>\<open>/^(.+):(\d+):(\d+)$/\<close>\<close>

definition reFrame :: re where
  "reFrame =
     seqs [Bol, Lit ''   at '', Group 1 (Many1 isDot), Lit '' ('',
           Group 2 (Many1 (\<lambda>c. c \<noteq> CHR ''('')), Lit '')'', Eol]"

definition reSourcePosition :: re where
  "reSourcePosition =
     seqs [Bol, Group 1 (Many1 isDot), Lit '':'', Group 2 (Many1 isDigit), Lit '':'',
           Group 3 (Many1 isDigit), Eol]"

definition remapStackLine :: "env \<Rightarrow> UrlAndMap option handler list \<Rightarrow> string \<Rightarrow> StackState
    \<Rightarrow> store \<Rightarrow> FrameInfo \<times> StackState \<times> store" where
  "remapStackLine env mhs text state st =
     (case exec False reFrame text 0 of
        None \<Rightarrow> (\<lparr>stackLine = text, internal = False\<rparr>, state, st)
      | Some mt \<Rightarrow>
          (let fnname = grp mt 1; src = grp mt 2
           in if src = ''native code'' \<or> src = ''native code:0:0''
              then (\<lparr>stackLine = text, internal = False\<rparr>, state\<lparr>curPosition := None\<rparr>, st)
              else
                (case exec False reSourcePosition src 0 of
                   None \<Rightarrow> (\<lparr>stackLine = text, internal = False\<rparr>, state, st)
                 | Some srcmatched \<Rightarrow>
                     if fnname = ''eval code''
                     then (\<lparr>stackLine = text, internal = False\<rparr>, state, st)
                     else
                       (case mapSourcePosition env mhs
                               \<lparr>source = grp srcmatched 1,
                                line = toNumber (grp srcmatched 2),
                                column = toNumber (grp srcmatched 3) - 1\<rparr> st
                        of (position, st') \<Rightarrow>
                          (\<lparr>stackLine = ''   at '' @ fnname @ '' ('' @ source position @ '':''
                               @ showInt (line position) @ '':''
                               @ showInt (column position + 1) @ '')'',
                            internal = startsWith (source position) ''internal/''\<rparr>,
                           state\<lparr>curPosition := Some position\<rparr>, st')))))"

text \<open>
  The two loops of \<open>remapStack\<close> over the index \<open>i\<close>, which both stop below 1.  The first
  loop leaves \<open>i\<close> at the frame where it breaks, so the second loop starts on that frame.
\<close>

fun firstLoop :: "env \<Rightarrow> UrlAndMap option handler list \<Rightarrow> string list \<Rightarrow> nat \<Rightarrow> StackState
    \<Rightarrow> store \<Rightarrow> string list \<times> nat \<times> StackState \<times> store" where
  "firstLoop env mhs frames 0 state st = (frames, 0, state, st)"
| "firstLoop env mhs frames (Suc k) state st =
     (case remapStackLine env mhs (frames ! Suc k) state st of (frame, state', st') \<Rightarrow>
        if internal frame then firstLoop env mhs frames k state' st'
        else ((take (Suc k + 1) frames)[Suc k := stackLine frame], Suc k,
              state'\<lparr>nextPosition := curPosition state'\<rparr>, st'))"

fun secondLoop :: "env \<Rightarrow> UrlAndMap option handler list \<Rightarrow> string list \<Rightarrow> nat \<Rightarrow> StackState
    \<Rightarrow> store \<Rightarrow> string list \<times> StackState \<times> store" where
  "secondLoop env mhs frames 0 state st = (frames, state, st)"
| "secondLoop env mhs frames (Suc k) state st =
     (case remapStackLine env mhs (frames ! Suc k) state st of (frame, state', st') \<Rightarrow>
        secondLoop env mhs (frames[Suc k := stackLine frame]) k
          (state'\<lparr>nextPosition := curPosition state'\<rparr>) st')"

definition remapStack :: "env \<Rightarrow> UrlAndMap option handler list \<Rightarrow> string option \<Rightarrow> store
    \<Rightarrow> string option \<times> store" where
  "remapStack env mhs stack st =
     (case stack of
        None \<Rightarrow> (None, st)
      | Some text \<Rightarrow>
          (let frames = splitNL text
           in case firstLoop env mhs frames (length frames - 1)
                     \<lparr>nextPosition = None, curPosition = None\<rparr> st
              of (frames1, i, state1, st1) \<Rightarrow>
                (case secondLoop env mhs frames1 i state1 st1 of (frames2, state2, st2) \<Rightarrow>
                   (Some (joinNL frames2), st2))))"

section \<open>Snippet extraction\<close>

text \<open>\<^verbatim>\<open>/\n {3}at [^(]+ \((.*):(\d+):(\d+)\)/\<close>\<close>

definition reErrorSource :: re where
  "reErrorSource =
     seqs [Lit [CHR 0x0A], Lit ''   at '', Many1 (\<lambda>c. c \<noteq> CHR ''(''), Lit '' ('',
           Group 1 (Many isDot), Lit '':'', Group 2 (Many1 isDigit), Lit '':'',
           Group 3 (Many1 isDigit), Lit '')'']"

text \<open>\<^verbatim>\<open>contents.split(/(?:\r\n|\r|\n)/)\<close>\<close>

fun splitLines :: "string \<Rightarrow> string list" where
  "splitLines [] = [[]]"
| "splitLines [c] = (if c = CHR 0x0D \<or> c = CHR 0x0A then [[], []] else [[c]])"
| "splitLines (c # d # cs) =
     (if c = CHR 0x0D \<and> d = CHR 0x0A then [] # splitLines cs
      else if c = CHR 0x0D \<or> c = CHR 0x0A then [] # splitLines (d # cs)
      else (case splitLines (d # cs) of [] \<Rightarrow> [[c]] | l # ls \<Rightarrow> (c # l) # ls))"

text \<open>
  \<open>getErrorSource\<close> takes \<^verbatim>\<open>error.stack\<close>.  It reads the two caches and leaves them as they
  are.  \<^verbatim>\<open>new Array(column)\<close> throws a \<^verbatim>\<open>RangeError\<close> from \<open>2\<^sup>3\<^sup>2\<close> on.
\<close>

definition getErrorSource :: "env \<Rightarrow> string \<Rightarrow> store \<Rightarrow> error + string option" where
  "getErrorSource env stack st =
     (case exec False reErrorSource stack 0 of
        None \<Rightarrow> Inr None
      | Some mt \<Rightarrow>
          (let src = grp mt 1; line = toNumber (grp mt 2); column = toNumber (grp mt 3);
               cached = (case fileContentsCache st src of None \<Rightarrow> [] | Some c \<Rightarrow> c);
               contents = (if cached = [] \<and> existsSync env src
                           then (case readFileSync env src of Inl er \<Rightarrow> [] | Inr c \<Rightarrow> c)
                           else cached)
           in if contents = [] then Inr None
              else if line < 1 \<or> int (length (splitLines contents)) < line then Inr None
              else (let code = splitLines contents ! nat (line - 1)
                    in if code = [] then Inr None
                       else if 2 ^ 32 \<le> column then Inl RangeError
                       else Inr (Some (src @ '':'' @ showInt line @ [CHR 0x0A] @ code
                              @ [CHR 0x0A] @ replicate (nat column - 1) (CHR 0x20) @ [CHR 0x5E])))))"

section \<open>Environments and inputs of the examples\<close>

text \<open>A decoded map without mappings, a disk without files, and the two caches at start-up.\<close>

definition noConsumer :: SourceMapConsumer where
  "noConsumer = \<lparr>sources = [], sourceContentFor = (\<lambda>src. None),
     originalPositionFor = (\<lambda>p. \<lparr>o_source = None, o_line = 0, o_column = 0\<rparr>)\<rparr>"

definition emptyDisk :: env where
  "emptyDisk = \<lparr>existsSync = (\<lambda>p. False), readFileSync = (\<lambda>p. Inl IOError),
     dirname = (\<lambda>p. p), resolve = (\<lambda>d u. u), base64ToString = (\<lambda>b. b),
     newSourceMapConsumer = (\<lambda>t. noConsumer)\<rparr>"

definition emptyStore :: store where
  "emptyStore = \<lparr>fileContentsCache = Map.empty, sourceMapCache = Map.empty\<rparr>"

text \<open>
  A stub handler that finds no map and counts its calls, in unary, under a key of the
  cache of file contents.
\<close>

definition countingStub :: "UrlAndMap option handler" where
  "countingStub src fc =
     (None, fc(''#calls'' \<mapsto> CHR ''I'' # (case fc ''#calls'' of None \<Rightarrow> [] | Some n \<Rightarrow> n)))"

definition somePosition :: Position where
  "somePosition = \<lparr>source = ''a.js'', line = 1, column = 0\<rparr>"

definition unmappedStore :: store where
  "unmappedStore = \<lparr>fileContentsCache = Map.empty,
     sourceMapCache = [''a.js'' \<mapsto> \<lparr>sm_url = Some ''a.js.map'', sm_map = Some noConsumer\<rparr>]\<rparr>"

section \<open>The URL scan of the map retriever\<close>

text \<open>
  C1.  The scan keeps the last match, but it returns the first group of that match, and
  the block comment form captures its URL in the second group.  So a file whose last (here:
  only) \<^verbatim>\<open>sourceMappingURL\<close> comment is a block comment yields \<^verbatim>\<open>undefined\<close>, where the same
  URL in a line comment is returned.
\<close>

theorem retrieveSourceMapURL_block_comment:
  "fst (retrieveSourceMapURL (retrieveFileHandlers env) ''a.js''
          [''a.js'' \<mapsto> ''/*# sourceMappingURL=foo.js.map */'']) = JSUndefined
   \<and> fst (retrieveSourceMapURL (retrieveFileHandlers env) ''a.js''
          [''a.js'' \<mapsto> ''//# sourceMappingURL=foo.js.map'']) = JSString ''foo.js.map''"
  by code_simp

section \<open>The content store\<close>

text \<open>A disk on which every file exists and no file can be read.\<close>

definition lockedDisk :: env where
  "lockedDisk = emptyDisk\<lparr>existsSync := (\<lambda>p. True)\<rparr>"



section \<open>The cache of source maps\<close>

lemma cachedSourceMap_keeps:
  "sourceMapCache st k = Some e \<Longrightarrow>
   sourceMapCache (snd (cachedSourceMap env mhs src st)) k = Some e"
  by (auto simp: cachedSourceMap_def Let_def split: option.splits prod.splits)

lemma mapSourcePosition_keeps:
  "sourceMapCache st k = Some e \<Longrightarrow>
   sourceMapCache (snd (mapSourcePosition env mhs p st)) k = Some e"
  using cachedSourceMap_keeps [of st k e env mhs "source p"]
  by (auto simp: mapSourcePosition_def Let_def split: option.splits prod.splits)

lemma calls_keep:
  "sourceMapCache st k = Some e \<Longrightarrow>
   sourceMapCache (foldl (\<lambda>s (env, mhs, r). snd (mapSourcePosition env mhs r s)) st calls) k
     = Some e"
  by (induction calls arbitrary: st) (auto simp: mapSourcePosition_keeps split: prod.splits)

lemma mapSourcePosition_negative:
  "sourceMapCache st (source q) = Some \<lparr>sm_url = None, sm_map = None\<rparr> \<Longrightarrow>
   mapSourcePosition env mhs q st = (q, st)"
  by (simp add: mapSourcePosition_def cachedSourceMap_def)

lemma mapSourcePosition_stores_negative:
  "sourceMapCache st (source p) = None \<Longrightarrow>
   fst (retrieveSourceMap mhs (source p) (fileContentsCache st)) = None \<Longrightarrow>
   sourceMapCache (snd (mapSourcePosition env mhs p st)) (source p)
     = Some \<lparr>sm_url = None, sm_map = None\<rparr>"
  by (auto simp: mapSourcePosition_def cachedSourceMap_def Let_def split: option.splits prod.splits)

text \<open>
  C3.  When a call of \<open>mapSourcePosition\<close> finds no entry for the source of \<open>p\<close> and the
  handler chain returns \<^verbatim>\<open>null\<close>, the call stores the entry \<^verbatim>\<open>{url: null, map: null}\<close>.
  The entry is still there after any further calls of \<open>mapSourcePosition\<close> (\<open>calls\<close>, each
  with a disk, handlers and a position of its own), and then a call for the same source
  returns its argument and leaves both caches as they are, whatever the handlers and the
  disk are: no handler is invoked, since a handler that were invoked could write to the
  cache.
\<close>

theorem negative_entry_terminal:
  assumes "sourceMapCache st (source p) = None"
    and "fst (retrieveSourceMap mhs (source p) (fileContentsCache st)) = None"
    and "source q = source p"
    and "st' = foldl (\<lambda>s (env, mhs, r). snd (mapSourcePosition env mhs r s))
                 (snd (mapSourcePosition env mhs p st)) calls"
  shows "sourceMapCache (snd (mapSourcePosition env mhs p st)) (source p)
           = Some \<lparr>sm_url = None, sm_map = None\<rparr>
         \<and> sourceMapCache st' (source p) = Some \<lparr>sm_url = None, sm_map = None\<rparr>
         \<and> mapSourcePosition env' mhs' q st' = (q, st')"
proof -
  have 1: "sourceMapCache (snd (mapSourcePosition env mhs p st)) (source p)
             = Some \<lparr>sm_url = None, sm_map = None\<rparr>"
    using assms(1,2) by (rule mapSourcePosition_stores_negative)
  then have 2: "sourceMapCache st' (source p) = Some \<lparr>sm_url = None, sm_map = None\<rparr>"
    unfolding assms(4) by (rule calls_keep)
  from 2 have "mapSourcePosition env' mhs' q st' = (q, st')"
    using assms(3) by (simp add: mapSourcePosition_negative)
  with 1 2 show ?thesis by simp
qed

text \<open>The counting stub is called once in two calls of \<open>mapSourcePosition\<close>.\<close>

theorem negative_entry_terminal_witness:
  "sourceMapCache emptyStore (source somePosition) = None
   \<and> fst (retrieveSourceMap [countingStub] (source somePosition) (fileContentsCache emptyStore))
       = None
   \<and> sourceMapCache (snd (mapSourcePosition emptyDisk [countingStub] somePosition emptyStore))
        (source somePosition) = Some \<lparr>sm_url = None, sm_map = None\<rparr>
   \<and> mapSourcePosition emptyDisk [countingStub] somePosition
        (snd (mapSourcePosition emptyDisk [countingStub] somePosition emptyStore))
      = (somePosition, snd (mapSourcePosition emptyDisk [countingStub] somePosition emptyStore))
   \<and> fileContentsCache
        (snd (mapSourcePosition emptyDisk [countingStub] somePosition
           (snd (mapSourcePosition emptyDisk [countingStub] somePosition emptyStore)))) ''#calls''
      = Some ''I''"
proof -
  have h1: "sourceMapCache emptyStore (source somePosition) = None"
    by (simp add: emptyStore_def)
  have h2: "fst (retrieveSourceMap [countingStub] (source somePosition)
                  (fileContentsCache emptyStore)) = None"
    by (simp add: retrieveSourceMap_def countingStub_def)
  have h3: "snd (mapSourcePosition emptyDisk [countingStub] somePosition emptyStore) =
      foldl (\<lambda>s (env, mhs, r). snd (mapSourcePosition env mhs r s))
        (snd (mapSourcePosition emptyDisk [countingStub] somePosition emptyStore)) []"
    by simp
  have c: "fileContentsCache
             (snd (mapSourcePosition emptyDisk [countingStub] somePosition emptyStore))
             ''#calls'' = Some ''I''"
    by (simp add: mapSourcePosition_def cachedSourceMap_def retrieveSourceMap_def
        countingStub_def emptyStore_def somePosition_def Let_def)
  from negative_entry_terminal [OF h1 h2 refl h3, of emptyDisk "[countingStub]"] h1 h2 c
  show ?thesis by simp
qed

text \<open>
  C4.  \<open>mapSourcePosition\<close> returns its argument when there is no source map for its
  source (the cached entry has no map, or there is no entry and the handler chain returns
  \<^verbatim>\<open>null\<close>), and when the decoded map (cached, or just retrieved and decoded) answers the
  query with \<^verbatim>\<open>source: null\<close>.
\<close>

theorem mapSourcePosition_unchanged:
  assumes "(\<exists>sm. sourceMapCache st (source p) = Some sm \<and> sm_map sm = None)
     \<or> (sourceMapCache st (source p) = None
          \<and> fst (retrieveSourceMap mhs (source p) (fileContentsCache st)) = None)
     \<or> (\<exists>sm consumer. sourceMapCache st (source p) = Some sm \<and> sm_map sm = Some consumer
          \<and> o_source (originalPositionFor consumer p) = None)
     \<or> (\<exists>urlAndMap. sourceMapCache st (source p) = None
          \<and> fst (retrieveSourceMap mhs (source p) (fileContentsCache st)) = Some urlAndMap
          \<and> o_source (originalPositionFor (newSourceMapConsumer env (um_map urlAndMap)) p)
              = None)"
  shows "fst (mapSourcePosition env mhs p st) = p"
  using assms
  by (auto simp: mapSourcePosition_def cachedSourceMap_def Let_def
      split: option.splits prod.splits)

theorem mapSourcePosition_unchanged_witness:
  "sourceMapCache emptyStore (source somePosition) = None
   \<and> fst (retrieveSourceMap (retrieveMapHandlers emptyDisk) (source somePosition)
            (fileContentsCache emptyStore)) = None
   \<and> fst (mapSourcePosition emptyDisk (retrieveMapHandlers emptyDisk) somePosition emptyStore)
       = somePosition
   \<and> sourceMapCache unmappedStore (source somePosition)
       = Some \<lparr>sm_url = Some ''a.js.map'', sm_map = Some noConsumer\<rparr>
   \<and> o_source (originalPositionFor noConsumer somePosition) = None
   \<and> fst (mapSourcePosition emptyDisk (retrieveMapHandlers emptyDisk) somePosition unmappedStore)
       = somePosition"
proof -
  have h1: "sourceMapCache emptyStore (source somePosition) = None"
    by (simp add: emptyStore_def)
  have h2: "fst (retrieveSourceMap (retrieveMapHandlers emptyDisk) (source somePosition)
            (fileContentsCache emptyStore)) = None"
    by code_simp
  have h3: "sourceMapCache unmappedStore (source somePosition)
       = Some \<lparr>sm_url = Some ''a.js.map'', sm_map = Some noConsumer\<rparr>"
    by (simp add: unmappedStore_def somePosition_def)
  have h4: "o_source (originalPositionFor noConsumer somePosition) = None"
    by (simp add: noConsumer_def)
  from mapSourcePosition_unchanged
         [of emptyStore somePosition "retrieveMapHandlers emptyDisk" emptyDisk]
       mapSourcePosition_unchanged
         [of unmappedStore somePosition "retrieveMapHandlers emptyDisk" emptyDisk]
       h1 h2 h3 h4
  show ?thesis by simp
qed

section \<open>Eval origins\<close>

definition nestedOrigin :: string where
  "nestedOrigin = ''eval at f (eval at g (file.js:10:5))''"

lemma exec_nestedOrigin:
  "exec False reEvalOrigin nestedOrigin 0 = None"
  "exec False reEvalNested nestedOrigin 0 =
     Some \<lparr>m_index = 0, m_end = 36, m_groups = [(2, ''eval at g (file.js:10:5)''), (1, ''f'')]\<rparr>"
  "exec False reEvalOrigin ''eval at g (file.js:10:5)'' 0 =
     Some \<lparr>m_index = 0, m_end = 24,
            m_groups = [(4, ''5''), (3, ''10''), (2, ''file.js''), (1, ''g'')]\<rparr>"
  "toNumber ''10'' = 10" "toNumber ''5'' = 5"
  by code_simp+

text \<open>
  C7.  \<open>mapEvalOrigin\<close> is a total function: its definition is accepted with the proof
  that the argument of the recursive call is shorter than the argument of the call.  The
  theorem states this decrease together with the recursive equation, then that an input
  which matches neither form is returned as it is, with the caches as they are, and last the
  doubly nested form: the innermost position, file.js at line 10 and column 5 (column 4
  counted from 0), goes through \<open>mapSourcePosition\<close>, and both levels of
  \<^verbatim>\<open>eval at f (...)\<close> stand around the result.
\<close>

theorem mapEvalOrigin_nested:
  "(\<forall>mt. exec False reEvalOrigin origin 0 = None \<and> exec False reEvalNested origin 0 = Some mt
      \<longrightarrow> length (grp mt 2) < length origin
          \<and> mapEvalOrigin env mhs origin st =
              (case mapEvalOrigin env mhs (grp mt 2) st of (inner, st') \<Rightarrow>
                 (''eval at '' @ grp mt 1 @ '' ('' @ inner @ '')'', st')))
   \<and> (exec False reEvalOrigin origin 0 = None \<and> exec False reEvalNested origin 0 = None
      \<longrightarrow> mapEvalOrigin env mhs origin st = (origin, st))
   \<and> mapEvalOrigin env mhs nestedOrigin st =
       (case mapSourcePosition env mhs \<lparr>source = ''file.js'', line = 10, column = 4\<rparr> st of
          (position, st') \<Rightarrow>
            (''eval at f (eval at g ('' @ source position @ '':'' @ showInt (line position)
               @ '':'' @ showInt (column position + 1) @ ''))'', st'))"
proof (intro conjI allI impI)
  fix mt
  assume a: "exec False reEvalOrigin origin 0 = None \<and> exec False reEvalNested origin 0 = Some mt"
  from exec_reEvalNested_shorter [of origin mt] a
  show "length (grp mt 2) < length origin" by (auto simp: grp_def)
  from a show "mapEvalOrigin env mhs origin st =
              (case mapEvalOrigin env mhs (grp mt 2) st of (inner, st') \<Rightarrow>
                 (''eval at '' @ grp mt 1 @ '' ('' @ inner @ '')'', st'))"
    by (subst mapEvalOrigin.simps) simp
next
  assume "exec False reEvalOrigin origin 0 = None \<and> exec False reEvalNested origin 0 = None"
  then show "mapEvalOrigin env mhs origin st = (origin, st)"
    by (subst mapEvalOrigin.simps) simp
next
  show "mapEvalOrigin env mhs nestedOrigin st =
       (case mapSourcePosition env mhs \<lparr>source = ''file.js'', line = 10, column = 4\<rparr> st of
          (position, st') \<Rightarrow>
            (''eval at f (eval at g ('' @ source position @ '':'' @ showInt (line position)
               @ '':'' @ showInt (column position + 1) @ ''))'', st'))"
    apply (subst mapEvalOrigin.simps)
    apply (simp add: exec_nestedOrigin grp_def group_def)
    apply (subst mapEvalOrigin.simps)
    apply (simp add: exec_nestedOrigin grp_def group_def split: prod.splits)
    done
qed

text \<open>A decoded map that sends every position to line 2, column 3 of orig.ts.\<close>

definition origConsumer :: SourceMapConsumer where
  "origConsumer = \<lparr>sources = [''orig.ts''], sourceContentFor = (\<lambda>src. None),
     originalPositionFor = (\<lambda>p. \<lparr>o_source = Some ''orig.ts'', o_line = 2, o_column = 3\<rparr>)\<rparr>"

definition mappedStore :: store where
  "mappedStore = \<lparr>fileContentsCache = Map.empty,
     sourceMapCache = [''file.js'' \<mapsto> \<lparr>sm_url = None, sm_map = Some origConsumer\<rparr>]\<rparr>"

theorem mapEvalOrigin_nested_witness:
  "exec False reEvalOrigin ''at f'' 0 = None \<and> exec False reEvalNested ''at f'' 0 = None
   \<and> mapEvalOrigin emptyDisk [] ''at f'' emptyStore = (''at f'', emptyStore)
   \<and> exec False reEvalOrigin nestedOrigin 0 = None
   \<and> exec False reEvalNested nestedOrigin 0 =
       Some \<lparr>m_index = 0, m_end = 36, m_groups = [(2, ''eval at g (file.js:10:5)''), (1, ''f'')]\<rparr>
   \<and> length ''eval at g (file.js:10:5)'' < length nestedOrigin
   \<and> fst (mapEvalOrigin emptyDisk [] nestedOrigin mappedStore)
       = ''eval at f (eval at g (orig.ts:2:4))''"
proof -
  have u: "exec False reEvalOrigin ''at f'' 0 = None" "exec False reEvalNested ''at f'' 0 = None"
    by code_simp+
  have m: "mapSourcePosition emptyDisk [] \<lparr>source = ''file.js'', line = 10, column = 4\<rparr> mappedStore
      = (\<lparr>source = ''orig.ts'', line = 2, column = 3\<rparr>, mappedStore)"
    by (simp add: mapSourcePosition_def cachedSourceMap_def mappedStore_def origConsumer_def
        supportRelativeURL_def)
  have s: "showInt 2 = ''2''" "showInt (3 + 1) = ''4''"
    by code_simp+
  have g: "grp \<lparr>m_index = 0, m_end = 36,
      m_groups = [(2, ''eval at g (file.js:10:5)''), (1, ''f'')]\<rparr> 2 = ''eval at g (file.js:10:5)''"
    by (simp add: grp_def group_def)
  have n1: "mapEvalOrigin emptyDisk [] ''at f'' emptyStore = (''at f'', emptyStore)"
    using mapEvalOrigin_nested [of "''at f''" emptyDisk "[]" emptyStore] u by blast
  have n2: "length (grp \<lparr>m_index = 0, m_end = 36,
      m_groups = [(2, ''eval at g (file.js:10:5)''), (1, ''f'')]\<rparr> 2) < length nestedOrigin"
    using mapEvalOrigin_nested [of nestedOrigin emptyDisk "[]" mappedStore] exec_nestedOrigin(1,2)
    by blast
  have n3: "mapEvalOrigin emptyDisk [] nestedOrigin mappedStore =
       (case mapSourcePosition emptyDisk [] \<lparr>source = ''file.js'', line = 10, column = 4\<rparr>
               mappedStore of
          (position, st') \<Rightarrow>
            (''eval at f (eval at g ('' @ source position @ '':'' @ showInt (line position)
               @ '':'' @ showInt (column position + 1) @ ''))'', st'))"
    using mapEvalOrigin_nested [of nestedOrigin emptyDisk "[]" mappedStore] by blast
  from n1 n2 n3 u m s g exec_nestedOrigin(1,2)
  show ?thesis by simp
qed

section \<open>Snippets\<close>


definition shortFileStack :: string where
  "shortFileStack = ''Error: x'' @ [CHR 0x0A] @ ''   at f (a.js:3:7)''"

definition shortFileStore :: store where
  "shortFileStore = \<lparr>fileContentsCache = [''a.js'' \<mapsto> ''one'' @ [CHR 0x0A] @ ''two''],
     sourceMapCache = Map.empty\<rparr>"

lemma exec_shortFileStack:
  "exec False reErrorSource shortFileStack 0 =
     Some \<lparr>m_index = 8, m_end = 27, m_groups = [(3, ''7''), (2, ''3''), (1, ''a.js'')]\<rparr>"
  by code_simp


section \<open>Facts about the regular expressions of the frame parser\<close>

text \<open>The two regular expressions of the frame parser, as conditions on two and three indices.\<close>

definition frameSplit :: "string \<Rightarrow> nat \<Rightarrow> nat \<Rightarrow> bool" where
  "frameSplit s a b \<longleftrightarrow>
     slice s 0 6 = ''   at '' \<and> 6 < a \<and> (\<forall>x\<in>set (slice s 6 a). isDot x) \<and>
     slice s a (a + 2) = '' ('' \<and> a + 2 < b \<and>
     (\<forall>x\<in>set (slice s (a + 2) b). x \<noteq> CHR ''('') \<and> slice s b (b + 1) = '')'' \<and>
     b + 1 = length s"

lemma reFrame_iff:
  "(j, c') \<in> set (rmatch False s reFrame (i, [])) \<longleftrightarrow>
     i = 0 \<and> j = length s \<and>
     (\<exists>a b. frameSplit s a b \<and> c' = [(2, slice s (a + 2) b), (1, slice s 6 a)])"
proof -
  have "(j, c') \<in> set (rmatch False s reFrame (i, [])) \<longleftrightarrow>
     i = 0 \<and> slice s 0 6 = ''   at '' \<and>
     (\<exists>a. 6 < a \<and> a \<le> length s \<and> (\<forall>x\<in>set (slice s 6 a). isDot x) \<and>
        slice s a (a + 2) = '' ('' \<and>
        (\<exists>b. a + 2 < b \<and> b \<le> length s \<and> (\<forall>x\<in>set (slice s (a + 2) b). x \<noteq> CHR ''('') \<and>
           slice s b (b + 1) = '')'' \<and>
           c' = [(2, slice s (a + 2) b), (1, slice s 6 a)] \<and> j = b + 1 \<and> b + 1 = length s))"
    unfolding reFrame_def seqs.simps
    apply (simp only: rmatch_iffs)
    apply (simp only: ex_simps simp_thms length_Cons list.size add_Suc_right add_0_right
        cong: conj_cong)
    apply (simp add: eval_nat_numeral)
    done
  also have "\<dots> \<longleftrightarrow> i = 0 \<and> j = length s \<and>
     (\<exists>a b. frameSplit s a b \<and> c' = [(2, slice s (a + 2) b), (1, slice s 6 a)])"
    unfolding frameSplit_def by (intro iffI; elim conjE exE; (intro conjI exI)?; simp?) 
  finally show ?thesis .
qed

lemma frameSplit_decompose:
  assumes "frameSplit s a b"
  shows "s = ''   at '' @ slice s 6 a @ '' ('' @ slice s (a + 2) b @ '')''"
proof -
  from assms have e: "slice s 0 6 = ''   at ''" "slice s a (a + 2) = '' (''"
    "slice s b (b + 1) = '')''"
    and i: "6 < a" "a + 2 < b"
    and l: "b + 1 = length s"
    unfolding frameSplit_def by blast+
  have "s = slice s 0 (b + 1)" unfolding l by simp
  also have "\<dots> = slice s 0 6 @ slice s 6 (b + 1)"
    by (rule slice_append [symmetric]) (use i in simp_all)
  also have "slice s 6 (b + 1) = slice s 6 a @ slice s a (b + 1)"
    by (rule slice_append [symmetric]) (use i in simp_all)
  also have "slice s a (b + 1) = slice s a (a + 2) @ slice s (a + 2) (b + 1)"
    by (rule slice_append [symmetric]) (use i in simp_all)
  also have "slice s (a + 2) (b + 1) = slice s (a + 2) b @ slice s b (b + 1)"
    by (rule slice_append [symmetric]) (use i in simp_all)
  finally show ?thesis unfolding e .
qed

lemma frameSplit_unique:
  assumes "frameSplit s a b" "frameSplit s a' b'"
  shows "a = a' \<and> b = b'"
proof -
  have b: "b = b'" using assms by (simp add: frameSplit_def)
  have *: "\<not> a1 < a2" if "frameSplit s a1 b" "frameSplit s a2 b" for a1 a2
  proof
    assume "a1 < a2"
    from that(2) have "slice s a2 (a2 + 2) = '' (''" "a2 + 2 < b" "b + 1 = length s"
      by (simp_all add: frameSplit_def)
    with slice_pair_snd [of s a2] have p: "s ! (a2 + 1) = CHR ''(''" by simp
    have "s ! (a2 + 1) \<in> set (slice s (a1 + 2) b)"
      using \<open>a1 < a2\<close> \<open>a2 + 2 < b\<close> \<open>b + 1 = length s\<close> by (intro slice_mem) simp_all
    with that(1) p show False by (auto simp: frameSplit_def)
  qed
  from * [of a a'] * [of a' a] assms b have "a = a'" by auto
  with b show ?thesis by simp
qed

lemma frameSplit_compose:
  assumes "fn \<noteq> []" "\<forall>x\<in>set fn. isDot x" "src \<noteq> []" "CHR ''('' \<notin> set src"
    and s: "s = ''   at '' @ fn @ '' ('' @ src @ '')''"
  shows "frameSplit s (6 + length fn) (6 + length fn + 2 + length src)
    \<and> slice s 6 (6 + length fn) = fn
    \<and> slice s (6 + length fn + 2) (6 + length fn + 2 + length src) = src"
proof -
  define s3 where "s3 = src @ '')''"
  define s2 where "s2 = '' ('' @ s3"
  define s1 where "s1 = fn @ s2"
  have s0: "s = ''   at '' @ s1" by (simp add: s s1_def s2_def s3_def)
  have sh0: "slice s (6 + i) (6 + j) = slice s1 i j" for i j
    unfolding s0 by (rule slice_app_right) simp
  have sh1: "slice s1 (length fn + i) (length fn + j) = slice s2 i j" for i j
    unfolding s1_def by (rule slice_app_right) simp
  have sh2: "slice s2 (2 + i) (2 + j) = slice s3 i j" for i j
    unfolding s2_def by (rule slice_app_right) simp
  have sh3: "slice s3 (length src + i) (length src + j) = slice '')'' i j" for i j
    unfolding s3_def by (rule slice_app_right) simp
  have l: "length s = 6 + length fn + 2 + length src + 1"
    by (simp add: s)
  have 0: "slice s 0 6 = ''   at ''"
    unfolding s0 by (rule slice_prefix') simp
  have "slice s (6 + 0) (6 + length fn) = slice s1 0 (length fn)"
    by (rule sh0)
  also have "\<dots> = fn" unfolding s1_def by (rule slice_prefix)
  finally have 1: "slice s 6 (6 + length fn) = fn" by simp
  have "slice s (6 + (length fn + 0)) (6 + (length fn + 2)) = slice s1 (length fn + 0) (length fn + 2)"
    by (rule sh0)
  also have "\<dots> = slice s2 0 2" by (rule sh1)
  also have "\<dots> = '' (''" unfolding s2_def by (rule slice_prefix') simp
  finally have 2: "slice s (6 + length fn) (6 + length fn + 2) = '' (''"
    by (simp only: add.assoc add_0_right)
  have "slice s (6 + (length fn + (2 + 0))) (6 + (length fn + (2 + length src)))
      = slice s1 (length fn + (2 + 0)) (length fn + (2 + length src))"
    by (rule sh0)
  also have "\<dots> = slice s2 (2 + 0) (2 + length src)" by (rule sh1)
  also have "\<dots> = slice s3 0 (length src)" by (rule sh2)
  also have "\<dots> = src" unfolding s3_def by (rule slice_prefix)
  finally have 3: "slice s (6 + length fn + 2) (6 + length fn + 2 + length src) = src"
    by (simp only: add.assoc add_0_right)
  have "slice s (6 + (length fn + (2 + (length src + 0))))
          (6 + (length fn + (2 + (length src + 1))))
      = slice s1 (length fn + (2 + (length src + 0))) (length fn + (2 + (length src + 1)))"
    by (rule sh0)
  also have "\<dots> = slice s2 (2 + (length src + 0)) (2 + (length src + 1))" by (rule sh1)
  also have "\<dots> = slice s3 (length src + 0) (length src + 1)" by (rule sh2)
  also have "\<dots> = slice '')'' 0 1" by (rule sh3)
  also have "\<dots> = '')''" by (simp add: slice_def)
  finally have 4: "slice s (6 + length fn + 2 + length src) (6 + length fn + 2 + length src + 1)
      = '')''"
    by (simp only: add.assoc add_0_right)
  have 5: "\<forall>x\<in>set (slice s 6 (6 + length fn)). isDot x"
    unfolding 1 by (rule assms(2))
  have 6: "\<forall>x\<in>set (slice s (6 + length fn + 2) (6 + length fn + 2 + length src)). x \<noteq> CHR ''(''"
    unfolding 3 using assms(4) by auto
  have 7: "6 < 6 + length fn" "6 + length fn + 2 < 6 + length fn + 2 + length src"
    using assms(1,3) by simp_all
  have fs: "frameSplit s (6 + length fn) (6 + length fn + 2 + length src)"
    unfolding frameSplit_def using 5 6 by (simp only: 0 2 4 7 l simp_thms)
  show ?thesis by (rule conjI [OF fs conjI [OF 1 3]])
qed

lemma exec_reFrame_iff:
  "exec False reFrame s 0 = Some mt \<longleftrightarrow>
     (\<exists>a b. frameSplit s a b \<and>
        mt = \<lparr>m_index = 0, m_end = length s,
              m_groups = [(2, slice s (a + 2) b), (1, slice s 6 a)]\<rparr>)"
proof
  assume "exec False reFrame s 0 = Some mt"
  from exec_SomeD [OF this]
  have "(m_end mt, m_groups mt) \<in> set (rmatch False s reFrame (m_index mt, []))"
    by simp
  then obtain a b where "m_index mt = 0" "m_end mt = length s" "frameSplit s a b"
    "m_groups mt = [(2, slice s (a + 2) b), (1, slice s 6 a)]"
    unfolding reFrame_iff by blast
  then have "frameSplit s a b \<and> mt = \<lparr>m_index = 0, m_end = length s,
              m_groups = [(2, slice s (a + 2) b), (1, slice s 6 a)]\<rparr>"
    by (cases mt) simp
  then show "\<exists>a b. frameSplit s a b \<and>
        mt = \<lparr>m_index = 0, m_end = length s,
              m_groups = [(2, slice s (a + 2) b), (1, slice s 6 a)]\<rparr>"
    by blast
next
  assume "\<exists>a b. frameSplit s a b \<and>
        mt = \<lparr>m_index = 0, m_end = length s,
              m_groups = [(2, slice s (a + 2) b), (1, slice s 6 a)]\<rparr>"
  then obtain a b where ab: "frameSplit s a b"
    and mt: "mt = \<lparr>m_index = 0, m_end = length s,
              m_groups = [(2, slice s (a + 2) b), (1, slice s 6 a)]\<rparr>"
    by blast
  let ?x = "(length s, [(2, slice s (a + 2) b), (1, slice s 6 a)])"
  have r: "reFrame = Seq Bol (seqs [Lit ''   at '', Group 1 (Many1 isDot), Lit '' ('',
           Group 2 (Many1 (\<lambda>c. c \<noteq> CHR ''('')), Lit '')'', Eol])"
    by (simp add: reFrame_def)
  have 1: "?x \<in> set (rmatch False s reFrame (0, []))"
    unfolding reFrame_iff using ab by blast
  have 2: "y = ?x" if "y \<in> set (rmatch False s reFrame (0, []))" for y
  proof -
    obtain j c where y: "y = (j, c)" by (cases y)
    from that have "(j, c) \<in> set (rmatch False s reFrame (0, []))"
      unfolding y .
    then obtain a' b' where "frameSplit s a' b'" "j = length s"
      "c = [(2, slice s (a' + 2) b'), (1, slice s 6 a')]"
      unfolding reFrame_iff by blast
    with frameSplit_unique [OF ab this(1)] y show ?thesis by simp
  qed
  from exec_Bol_unique [OF r 1 2]
  show "exec False reFrame s 0 = Some mt" by (simp only: mt fst_conv snd_conv)
qed

definition positionSplit :: "string \<Rightarrow> nat \<Rightarrow> nat \<Rightarrow> bool" where
  "positionSplit s a b \<longleftrightarrow>
     0 < a \<and> (\<forall>x\<in>set (slice s 0 a). isDot x) \<and> slice s a (a + 1) = '':'' \<and> a + 1 < b \<and>
     (\<forall>x\<in>set (slice s (a + 1) b). isDigit x) \<and> slice s b (b + 1) = '':'' \<and>
     b + 1 < length s \<and> (\<forall>x\<in>set (slice s (b + 1) (length s)). isDigit x)"

lemma reSourcePosition_iff:
  "(j, c') \<in> set (rmatch False s reSourcePosition (i, [])) \<longleftrightarrow>
     i = 0 \<and> j = length s \<and>
     (\<exists>a b. positionSplit s a b \<and>
        c' = [(3, slice s (b + 1) (length s)), (2, slice s (a + 1) b), (1, slice s 0 a)])"
proof -
  have "(j, c') \<in> set (rmatch False s reSourcePosition (i, [])) \<longleftrightarrow>
     i = 0 \<and>
     (\<exists>a. (0 < a \<and> a \<le> length s \<and> (\<forall>x\<in>set (slice s 0 a). isDot x)) \<and>
        slice s a (a + 1) = '':'' \<and>
        (\<exists>b. (a + 1 < b \<and> b \<le> length s \<and> (\<forall>x\<in>set (slice s (a + 1) b). isDigit x)) \<and>
           slice s b (b + 1) = '':'' \<and>
           (\<exists>k. (b + 1 < k \<and> k \<le> length s \<and> (\<forall>x\<in>set (slice s (b + 1) k). isDigit x)) \<and>
              c' = [(3, slice s (b + 1) k), (2, slice s (a + 1) b), (1, slice s 0 a)] \<and>
              j = k \<and> k = length s)))"
    unfolding reSourcePosition_def seqs.simps
    apply (simp only: rmatch_iffs)
    apply (simp only: ex_simps simp_thms length_Cons list.size add_Suc_right add_0_right
        cong: conj_cong)
    apply (simp add: eval_nat_numeral)
    done
  also have "\<dots> \<longleftrightarrow> i = 0 \<and> j = length s \<and>
     (\<exists>a b. positionSplit s a b \<and>
        c' = [(3, slice s (b + 1) (length s)), (2, slice s (a + 1) b), (1, slice s 0 a)])"
    unfolding positionSplit_def
    by (intro iffI; elim conjE exE; (intro conjI exI)?; simp?)
  finally show ?thesis .
qed


lemma positionSplit_decompose:
  assumes "positionSplit s a b"
  shows "s = slice s 0 a @ '':'' @ slice s (a + 1) b @ '':'' @ slice s (b + 1) (length s)"
proof -
  from assms have e: "slice s a (a + 1) = '':''" "slice s b (b + 1) = '':''"
    and i: "0 < a" "a + 1 < b" "b + 1 < length s"
    unfolding positionSplit_def by blast+
  have "s = slice s 0 (length s)" by simp
  also have "\<dots> = slice s 0 a @ slice s a (length s)"
    by (rule slice_append [symmetric]) (use i in simp_all)
  also have "slice s a (length s) = slice s a (a + 1) @ slice s (a + 1) (length s)"
    by (rule slice_append [symmetric]) (use i in simp_all)
  also have "slice s (a + 1) (length s) = slice s (a + 1) b @ slice s b (length s)"
    by (rule slice_append [symmetric]) (use i in simp_all)
  also have "slice s b (length s) = slice s b (b + 1) @ slice s (b + 1) (length s)"
    by (rule slice_append [symmetric]) (use i in simp_all)
  finally show ?thesis unfolding e .
qed

lemma colon_not_digit: "\<not> isDigit (CHR '':'')"
  by (simp add: isDigit_def)

lemma positionSplit_unique:
  assumes "positionSplit s a b" "positionSplit s a' b'"
  shows "a = a' \<and> b = b'"
proof -
  have *: "\<not> b1 < b2" if "positionSplit s a1 b1" "positionSplit s a2 b2" for a1 b1 a2 b2
  proof
    assume "b1 < b2"
    from that(2) have "slice s b2 (b2 + 1) = '':''" "b2 + 1 < length s"
      by (simp_all add: positionSplit_def)
    with slice_single [of s b2] have p: "s ! b2 = CHR '':''" by simp
    have "s ! b2 \<in> set (slice s (b1 + 1) (length s))"
      using \<open>b1 < b2\<close> \<open>b2 + 1 < length s\<close> by (intro slice_mem) simp_all
    with that(1) have "isDigit (s ! b2)" unfolding positionSplit_def by blast
    with p colon_not_digit show False by simp
  qed
  from * [OF assms] * [OF assms(2,1)] have b: "b = b'" by simp
  have **: "\<not> a1 < a2" if "positionSplit s a1 b" "positionSplit s a2 b" for a1 a2
  proof
    assume "a1 < a2"
    from that(2) have "slice s a2 (a2 + 1) = '':''" "a2 + 1 < b" "b + 1 < length s"
      by (simp_all add: positionSplit_def)
    with slice_single [of s a2] have p: "s ! a2 = CHR '':''" by simp
    have "s ! a2 \<in> set (slice s (a1 + 1) b)"
      using \<open>a1 < a2\<close> \<open>a2 + 1 < b\<close> \<open>b + 1 < length s\<close> by (intro slice_mem) simp_all
    with that(1) have "isDigit (s ! a2)" unfolding positionSplit_def by blast
    with p colon_not_digit show False by simp
  qed
  from ** [of a a'] ** [of a' a] assms b have "a = a'" by auto
  with b show ?thesis by simp
qed

lemma positionSplit_compose:
  assumes "file \<noteq> []" "\<forall>x\<in>set file. isDot x" "ln \<noteq> []" "\<forall>x\<in>set ln. isDigit x"
    "cl \<noteq> []" "\<forall>x\<in>set cl. isDigit x"
    and s: "s = file @ '':'' @ ln @ '':'' @ cl"
  shows "positionSplit s (length file) (length file + 1 + length ln)
    \<and> slice s 0 (length file) = file
    \<and> slice s (length file + 1) (length file + 1 + length ln) = ln
    \<and> slice s (length file + 1 + length ln + 1) (length s) = cl"
proof -
  define s3 where "s3 = '':'' @ cl"
  define s2 where "s2 = ln @ s3"
  define s1 where "s1 = '':'' @ s2"
  have s0: "s = file @ s1" by (simp add: s s1_def s2_def s3_def)
  have sh0: "slice s (length file + i) (length file + j) = slice s1 i j" for i j
    unfolding s0 by (rule slice_app_right) simp
  have sh1: "slice s1 (1 + i) (1 + j) = slice s2 i j" for i j
    unfolding s1_def by (rule slice_app_right) simp
  have sh2: "slice s2 (length ln + i) (length ln + j) = slice s3 i j" for i j
    unfolding s2_def by (rule slice_app_right) simp
  have sh3: "slice s3 (1 + i) (1 + j) = slice cl i j" for i j
    unfolding s3_def by (rule slice_app_right) simp
  have l: "length s = length file + (1 + (length ln + (1 + length cl)))"
    by (simp add: s)
  have 1: "slice s 0 (length file) = file"
    unfolding s0 by (rule slice_prefix)
  have "slice s (length file + 0) (length file + 1) = slice s1 0 1"
    by (rule sh0)
  also have "\<dots> = '':''" unfolding s1_def by (rule slice_prefix') simp
  finally have 2: "slice s (length file) (length file + 1) = '':''"
    by (simp only: add_0_right)
  have "slice s (length file + (1 + 0)) (length file + (1 + length ln))
      = slice s1 (1 + 0) (1 + length ln)"
    by (rule sh0)
  also have "\<dots> = slice s2 0 (length ln)" by (rule sh1)
  also have "\<dots> = ln" unfolding s2_def by (rule slice_prefix)
  finally have 3: "slice s (length file + 1) (length file + 1 + length ln) = ln"
    by (simp only: add.assoc add_0_right)
  have "slice s (length file + (1 + (length ln + 0))) (length file + (1 + (length ln + 1)))
      = slice s1 (1 + (length ln + 0)) (1 + (length ln + 1))"
    by (rule sh0)
  also have "\<dots> = slice s2 (length ln + 0) (length ln + 1)" by (rule sh1)
  also have "\<dots> = slice s3 0 1" by (rule sh2)
  also have "\<dots> = '':''" unfolding s3_def by (rule slice_prefix') simp
  finally have 4: "slice s (length file + 1 + length ln) (length file + 1 + length ln + 1) = '':''"
    by (simp only: add.assoc add_0_right)
  have "slice s (length file + (1 + (length ln + (1 + 0))))
          (length file + (1 + (length ln + (1 + length cl))))
      = slice s1 (1 + (length ln + (1 + 0))) (1 + (length ln + (1 + length cl)))"
    by (rule sh0)
  also have "\<dots> = slice s2 (length ln + (1 + 0)) (length ln + (1 + length cl))" by (rule sh1)
  also have "\<dots> = slice s3 (1 + 0) (1 + length cl)" by (rule sh2)
  also have "\<dots> = slice cl 0 (length cl)" by (rule sh3)
  also have "\<dots> = cl" by simp
  finally have 5: "slice s (length file + 1 + length ln + 1) (length s) = cl"
    unfolding l by (simp only: add.assoc add_0_right)
  have 6: "\<forall>x\<in>set (slice s 0 (length file)). isDot x"
    unfolding 1 by (rule assms(2))
  have 7: "\<forall>x\<in>set (slice s (length file + 1) (length file + 1 + length ln)). isDigit x"
    unfolding 3 by (rule assms(4))
  have 8: "\<forall>x\<in>set (slice s (length file + 1 + length ln + 1) (length s)). isDigit x"
    unfolding 5 by (rule assms(6))
  have 9: "0 < length file" "length file + 1 < length file + 1 + length ln"
    "length file + 1 + length ln + 1 < length s"
    using assms(1,3,5) by (simp_all add: l)
  have ps: "positionSplit s (length file) (length file + 1 + length ln)"
    unfolding positionSplit_def using 6 7 8 9 2 4 by blast
  show ?thesis by (rule conjI [OF ps conjI [OF 1 conjI [OF 3 5]]])
qed

lemma exec_reSourcePosition_iff:
  "exec False reSourcePosition s 0 = Some mt \<longleftrightarrow>
     (\<exists>a b. positionSplit s a b \<and>
        mt = \<lparr>m_index = 0, m_end = length s,
              m_groups = [(3, slice s (b + 1) (length s)), (2, slice s (a + 1) b),
                          (1, slice s 0 a)]\<rparr>)"
proof
  assume "exec False reSourcePosition s 0 = Some mt"
  from exec_SomeD [OF this]
  have "(m_end mt, m_groups mt) \<in> set (rmatch False s reSourcePosition (m_index mt, []))"
    by simp
  then obtain a b where "m_index mt = 0" "m_end mt = length s" "positionSplit s a b"
    "m_groups mt = [(3, slice s (b + 1) (length s)), (2, slice s (a + 1) b), (1, slice s 0 a)]"
    unfolding reSourcePosition_iff by blast
  then have "positionSplit s a b \<and> mt = \<lparr>m_index = 0, m_end = length s,
              m_groups = [(3, slice s (b + 1) (length s)), (2, slice s (a + 1) b),
                          (1, slice s 0 a)]\<rparr>"
    by (cases mt) simp
  then show "\<exists>a b. positionSplit s a b \<and>
        mt = \<lparr>m_index = 0, m_end = length s,
              m_groups = [(3, slice s (b + 1) (length s)), (2, slice s (a + 1) b),
                          (1, slice s 0 a)]\<rparr>"
    by blast
next
  assume "\<exists>a b. positionSplit s a b \<and>
        mt = \<lparr>m_index = 0, m_end = length s,
              m_groups = [(3, slice s (b + 1) (length s)), (2, slice s (a + 1) b),
                          (1, slice s 0 a)]\<rparr>"
  then obtain a b where ab: "positionSplit s a b"
    and mt: "mt = \<lparr>m_index = 0, m_end = length s,
              m_groups = [(3, slice s (b + 1) (length s)), (2, slice s (a + 1) b),
                          (1, slice s 0 a)]\<rparr>"
    by blast
  let ?x = "(length s, [(3, slice s (b + 1) (length s)), (2, slice s (a + 1) b),
                          (1, slice s 0 a)])"
  have r: "reSourcePosition = Seq Bol (seqs [Group 1 (Many1 isDot), Lit '':'',
      Group 2 (Many1 isDigit), Lit '':'', Group 3 (Many1 isDigit), Eol])"
    by (simp add: reSourcePosition_def)
  have 1: "?x \<in> set (rmatch False s reSourcePosition (0, []))"
    unfolding reSourcePosition_iff using ab by blast
  have 2: "y = ?x" if "y \<in> set (rmatch False s reSourcePosition (0, []))" for y
  proof -
    obtain j c where y: "y = (j, c)" by (cases y)
    from that have "(j, c) \<in> set (rmatch False s reSourcePosition (0, []))"
      unfolding y .
    then obtain a' b' where "positionSplit s a' b'" "j = length s"
      "c = [(3, slice s (b' + 1) (length s)), (2, slice s (a' + 1) b'), (1, slice s 0 a')]"
      unfolding reSourcePosition_iff by blast
    with positionSplit_unique [OF ab this(1)] y show ?thesis by simp
  qed
  from exec_Bol_unique [OF r 1 2]
  show "exec False reSourcePosition s 0 = Some mt" by (simp only: mt fst_conv snd_conv)
qed

lemma exec_reFrame_SomeD:
  assumes "exec False reFrame s 0 = Some mt"
  shows "s = ''   at '' @ grp mt 1 @ '' ('' @ grp mt 2 @ '')''"
    and "grp mt 1 \<noteq> []" and "\<forall>x\<in>set (grp mt 1). isDot x"
    and "grp mt 2 \<noteq> []" and "CHR ''('' \<notin> set (grp mt 2)"
proof -
  from assms obtain a b where ab: "frameSplit s a b"
    and mt: "mt = \<lparr>m_index = 0, m_end = length s,
              m_groups = [(2, slice s (a + 2) b), (1, slice s 6 a)]\<rparr>"
    unfolding exec_reFrame_iff by blast
  have g: "grp mt 1 = slice s 6 a" "grp mt 2 = slice s (a + 2) b"
    by (simp_all add: mt grp_def group_def)
  from ab have i: "6 < a" "a + 2 < b" "b + 1 = length s"
    and d: "\<forall>x\<in>set (slice s 6 a). isDot x" "\<forall>x\<in>set (slice s (a + 2) b). x \<noteq> CHR ''(''"
    unfolding frameSplit_def by blast+
  show "s = ''   at '' @ grp mt 1 @ '' ('' @ grp mt 2 @ '')''"
    unfolding g by (rule frameSplit_decompose [OF ab])
  have "length (slice s 6 a) = a - 6" "length (slice s (a + 2) b) = b - (a + 2)"
    using i by (simp_all add: length_slice)
  with i show "grp mt 1 \<noteq> []" "grp mt 2 \<noteq> []"
    unfolding g by auto
  from d show "\<forall>x\<in>set (grp mt 1). isDot x" "CHR ''('' \<notin> set (grp mt 2)"
    unfolding g by auto
qed

lemma exec_reFrame_SomeI:
  assumes "fn \<noteq> []" "\<forall>x\<in>set fn. isDot x" "src \<noteq> []" "CHR ''('' \<notin> set src"
  shows "\<exists>mt. exec False reFrame (''   at '' @ fn @ '' ('' @ src @ '')'') 0 = Some mt
           \<and> grp mt 1 = fn \<and> grp mt 2 = src"
proof -
  let ?s = "''   at '' @ fn @ '' ('' @ src @ '')''"
  let ?mt = "\<lparr>m_index = 0, m_end = length ?s,
      m_groups = [(2, slice ?s (6 + length fn + 2) (6 + length fn + 2 + length src)),
                  (1, slice ?s 6 (6 + length fn))]\<rparr>"
  from frameSplit_compose [OF assms refl]
  have c: "frameSplit ?s (6 + length fn) (6 + length fn + 2 + length src)"
    "slice ?s 6 (6 + length fn) = fn"
    "slice ?s (6 + length fn + 2) (6 + length fn + 2 + length src) = src"
    by blast+
  from c(1) have "exec False reFrame ?s 0 = Some ?mt"
    unfolding exec_reFrame_iff by blast
  moreover have "grp ?mt 1 = fn" "grp ?mt 2 = src"
    unfolding grp_def group_def using c(2,3) by simp_all
  ultimately show ?thesis by blast
qed

lemma exec_reSourcePosition_SomeD:
  assumes "exec False reSourcePosition s 0 = Some mt"
  shows "s = grp mt 1 @ '':'' @ grp mt 2 @ '':'' @ grp mt 3"
    and "grp mt 1 \<noteq> []" and "\<forall>x\<in>set (grp mt 1). isDot x"
    and "grp mt 2 \<noteq> []" and "\<forall>x\<in>set (grp mt 2). isDigit x"
    and "grp mt 3 \<noteq> []" and "\<forall>x\<in>set (grp mt 3). isDigit x"
proof -
  from assms obtain a b where ab: "positionSplit s a b"
    and mt: "mt = \<lparr>m_index = 0, m_end = length s,
              m_groups = [(3, slice s (b + 1) (length s)), (2, slice s (a + 1) b),
                          (1, slice s 0 a)]\<rparr>"
    unfolding exec_reSourcePosition_iff by blast
  have g: "grp mt 1 = slice s 0 a" "grp mt 2 = slice s (a + 1) b"
    "grp mt 3 = slice s (b + 1) (length s)"
    by (simp_all add: mt grp_def group_def)
  from ab have i: "0 < a" "a + 1 < b" "b + 1 < length s"
    and d: "\<forall>x\<in>set (slice s 0 a). isDot x" "\<forall>x\<in>set (slice s (a + 1) b). isDigit x"
      "\<forall>x\<in>set (slice s (b + 1) (length s)). isDigit x"
    unfolding positionSplit_def by blast+
  show "s = grp mt 1 @ '':'' @ grp mt 2 @ '':'' @ grp mt 3"
    unfolding g by (rule positionSplit_decompose [OF ab])
  have "length (slice s 0 a) = a" "length (slice s (a + 1) b) = b - (a + 1)"
    "length (slice s (b + 1) (length s)) = length s - (b + 1)"
    using i by (simp_all add: length_slice)
  with i show "grp mt 1 \<noteq> []" "grp mt 2 \<noteq> []" "grp mt 3 \<noteq> []"
    unfolding g by auto
  from d show "\<forall>x\<in>set (grp mt 1). isDot x" "\<forall>x\<in>set (grp mt 2). isDigit x"
    "\<forall>x\<in>set (grp mt 3). isDigit x"
    unfolding g by auto
qed

lemma exec_reSourcePosition_SomeI:
  assumes "file \<noteq> []" "\<forall>x\<in>set file. isDot x" "ln \<noteq> []" "\<forall>x\<in>set ln. isDigit x"
    "cl \<noteq> []" "\<forall>x\<in>set cl. isDigit x"
  shows "\<exists>mt. exec False reSourcePosition (file @ '':'' @ ln @ '':'' @ cl) 0 = Some mt
           \<and> grp mt 1 = file \<and> grp mt 2 = ln \<and> grp mt 3 = cl"
proof -
  let ?s = "file @ '':'' @ ln @ '':'' @ cl"
  let ?a = "length file" and ?b = "length file + 1 + length ln"
  let ?mt = "\<lparr>m_index = 0, m_end = length ?s,
      m_groups = [(3, slice ?s (?b + 1) (length ?s)), (2, slice ?s (?a + 1) ?b),
                  (1, slice ?s 0 ?a)]\<rparr>"
  from positionSplit_compose [OF assms refl]
  have c: "positionSplit ?s ?a ?b" "slice ?s 0 ?a = file" "slice ?s (?a + 1) ?b = ln"
    "slice ?s (?b + 1) (length ?s) = cl"
    by blast+
  from c(1) have "exec False reSourcePosition ?s 0 = Some ?mt"
    unfolding exec_reSourcePosition_iff by blast
  moreover have "grp ?mt 1 = file" "grp ?mt 2 = ln" "grp ?mt 3 = cl"
    unfolding grp_def group_def using c(2,3,4) by simp_all
  ultimately show ?thesis by blast
qed

section \<open>Lines that the frame parser passes through\<close>

text \<open>
  \<open>parseFrame text\<close> is what \<open>remapStackLine\<close> reads from a line before it calls
  \<open>mapSourcePosition\<close>: the function name, the file and the numerals of line and column;
  \<open>None\<close> on the four paths that return the line as it is.
\<close>

definition parseFrame :: "string \<Rightarrow> (string \<times> string \<times> string \<times> string) option" where
  "parseFrame text =
     (case exec False reFrame text 0 of
        None \<Rightarrow> None
      | Some mt \<Rightarrow>
          if grp mt 2 = ''native code'' \<or> grp mt 2 = ''native code:0:0'' then None
          else (case exec False reSourcePosition (grp mt 2) 0 of
                  None \<Rightarrow> None
                | Some srcmatched \<Rightarrow>
                    if grp mt 1 = ''eval code'' then None
                    else Some (grp mt 1, grp srcmatched 1, grp srcmatched 2, grp srcmatched 3)))"

lemma remapStackLine_parseFrame:
  "remapStackLine env mhs text state st =
     (case parseFrame text of
        None \<Rightarrow>
          (\<lparr>stackLine = text, internal = False\<rparr>,
           (case exec False reFrame text 0 of
              None \<Rightarrow> state
            | Some mt \<Rightarrow>
                if grp mt 2 = ''native code'' \<or> grp mt 2 = ''native code:0:0''
                then state\<lparr>curPosition := None\<rparr> else state), st)
      | Some (fnname, file, ln, cl) \<Rightarrow>
          (case mapSourcePosition env mhs
                  \<lparr>source = file, line = toNumber ln, column = toNumber cl - 1\<rparr> st
           of (position, st') \<Rightarrow>
             (\<lparr>stackLine = ''   at '' @ fnname @ '' ('' @ source position @ '':''
                  @ showInt (line position) @ '':'' @ showInt (column position + 1) @ '')'',
               internal = startsWith (source position) ''internal/''\<rparr>,
              state\<lparr>curPosition := Some position\<rparr>, st')))"
  unfolding remapStackLine_def parseFrame_def
  by (simp add: Let_def split: option.splits)

text \<open>The frame grammar in the words of the specification.\<close>

definition frameGrammar :: "string \<Rightarrow> bool" where
  "frameGrammar text \<longleftrightarrow>
     (\<exists>fn file ln cl.
        text = ''   at '' @ fn @ '' ('' @ file @ '':'' @ ln @ '':'' @ cl @ '')'' \<and>
        fn \<noteq> [] \<and> file \<noteq> [] \<and> ln \<noteq> [] \<and> cl \<noteq> [] \<and>
        (\<forall>x\<in>set ln. isDigit x) \<and> (\<forall>x\<in>set cl. isDigit x))"

lemma parseFrame_SomeD:
  assumes "parseFrame text = Some (fn, file, ln, cl)"
  shows "text = ''   at '' @ fn @ '' ('' @ file @ '':'' @ ln @ '':'' @ cl @ '')''"
    and "fn \<noteq> []" "\<forall>x\<in>set fn. isDot x" "fn \<noteq> ''eval code''"
    and "file \<noteq> []" "\<forall>x\<in>set file. isDot x" "CHR ''('' \<notin> set file"
    and "ln \<noteq> []" "\<forall>x\<in>set ln. isDigit x" "cl \<noteq> []" "\<forall>x\<in>set cl. isDigit x"
    and "file @ '':'' @ ln @ '':'' @ cl \<noteq> ''native code:0:0''"
proof -
  from assms obtain mt sm where mt: "exec False reFrame text 0 = Some mt"
    and n: "grp mt 2 \<noteq> ''native code:0:0''"
    and sm: "exec False reSourcePosition (grp mt 2) 0 = Some sm"
    and e: "grp mt 1 \<noteq> ''eval code''"
    and g: "fn = grp mt 1" "file = grp sm 1" "ln = grp sm 2" "cl = grp sm 3"
    unfolding parseFrame_def by (auto split: option.splits if_splits)
  note f = exec_reFrame_SomeD [OF mt]
  note p = exec_reSourcePosition_SomeD [OF sm]
  have src: "grp mt 2 = file @ '':'' @ ln @ '':'' @ cl"
    unfolding g by (rule p(1))
  show "text = ''   at '' @ fn @ '' ('' @ file @ '':'' @ ln @ '':'' @ cl @ '')''"
    using f(1) unfolding src g by simp
  show "fn \<noteq> []" "\<forall>x\<in>set fn. isDot x" "fn \<noteq> ''eval code''"
    unfolding g using f(2,3) e by blast+
  show "file \<noteq> []" "\<forall>x\<in>set file. isDot x" "ln \<noteq> []" "\<forall>x\<in>set ln. isDigit x"
    "cl \<noteq> []" "\<forall>x\<in>set cl. isDigit x"
    unfolding g using p(2-7) by blast+
  from f(5) show "CHR ''('' \<notin> set file" unfolding src by simp
  from n show "file @ '':'' @ ln @ '':'' @ cl \<noteq> ''native code:0:0''" unfolding src .
qed

lemma parseFrame_frameGrammar: "parseFrame text \<noteq> None \<Longrightarrow> frameGrammar text"
proof -
  assume "parseFrame text \<noteq> None"
  then obtain fn path ln cl where "parseFrame text = Some (fn, path, ln, cl)"
    by (cases "parseFrame text") auto
  from parseFrame_SomeD [OF this] show ?thesis
    unfolding frameGrammar_def by blast
qed

text \<open>
  C5.  A line that does not have the shape \<^verbatim>\<open>   at <fn> (<source>:<line>:<column>)\<close>, and a
  line on which the frame parser takes one of its four early returns (no match of the
  frame, a native code frame, no match of the source position, an eval code frame), comes
  back as it is, marked as not internal, and the caches are as they were.
\<close>

theorem remapStackLine_passes_other_lines:
  assumes "\<not> frameGrammar text \<or> parseFrame text = None"
  shows "fst (remapStackLine env mhs text state st) = \<lparr>stackLine = text, internal = False\<rparr>
    \<and> snd (snd (remapStackLine env mhs text state st)) = st"
proof -
  from assms parseFrame_frameGrammar have "parseFrame text = None" by blast
  then show ?thesis unfolding remapStackLine_parseFrame by simp
qed

theorem remapStackLine_passes_other_lines_witness:
  "\<not> frameGrammar ''Error: x''
   \<and> fst (remapStackLine emptyDisk (retrieveMapHandlers emptyDisk) ''Error: x''
           \<lparr>nextPosition = None, curPosition = None\<rparr> emptyStore)
       = \<lparr>stackLine = ''Error: x'', internal = False\<rparr>
   \<and> parseFrame ''   at eval code (internal/a.js:1:1)'' = None
   \<and> fst (remapStackLine emptyDisk (retrieveMapHandlers emptyDisk)
           ''   at eval code (internal/a.js:1:1)''
           \<lparr>nextPosition = None, curPosition = None\<rparr> emptyStore)
       = \<lparr>stackLine = ''   at eval code (internal/a.js:1:1)'', internal = False\<rparr>
   \<and> parseFrame ''   at f (native code:0:0)'' = None
   \<and> fst (remapStackLine emptyDisk (retrieveMapHandlers emptyDisk) ''   at f (native code:0:0)''
           \<lparr>nextPosition = None, curPosition = None\<rparr> emptyStore)
       = \<lparr>stackLine = ''   at f (native code:0:0)'', internal = False\<rparr>"
proof -
  have g: "\<not> frameGrammar ''Error: x''"
    by (simp add: frameGrammar_def)
  have p: "parseFrame ''   at eval code (internal/a.js:1:1)'' = None"
    "parseFrame ''   at f (native code:0:0)'' = None"
    by code_simp+
  from remapStackLine_passes_other_lines [of "''Error: x''" emptyDisk "retrieveMapHandlers emptyDisk"
      "\<lparr>nextPosition = None, curPosition = None\<rparr>" emptyStore]
    remapStackLine_passes_other_lines [of "''   at eval code (internal/a.js:1:1)''" emptyDisk
      "retrieveMapHandlers emptyDisk" "\<lparr>nextPosition = None, curPosition = None\<rparr>" emptyStore]
    remapStackLine_passes_other_lines [of "''   at f (native code:0:0)''" emptyDisk
      "retrieveMapHandlers emptyDisk" "\<lparr>nextPosition = None, curPosition = None\<rparr>" emptyStore]
    g p
  show ?thesis by simp
qed

section \<open>Stacks of internal frames\<close>

lemma splitNL_not_Nil [simp]: "splitNL s \<noteq> []"
  by (induction s) (auto split: list.splits)

lemma joinNL_Cons: "ls \<noteq> [] \<Longrightarrow> joinNL (l # ls) = l @ CHR 0x0A # joinNL ls"
  by (cases ls) auto

lemma joinNL_splitNL: "joinNL (splitNL s) = s"
proof (induction s)
  case Nil
  then show ?case by simp
next
  case (Cons c cs)
  show ?case
  proof (cases "c = CHR 0x0A")
    case True
    with Cons show ?thesis by (simp add: joinNL_Cons)
  next
    case False
    obtain l ls where s: "splitNL cs = l # ls"
      by (cases "splitNL cs") auto
    with Cons False show ?thesis
      by (cases ls) auto
  qed
qed

text \<open>
  \<open>allInternal env mhs frames i state st\<close>: the frame parser classifies each of the lines
  \<open>i\<close>, \<open>i - 1\<close>, ..., 1 of \<open>frames\<close> as internal, each line in the state in which the first
  loop reaches it.
\<close>

fun allInternal :: "env \<Rightarrow> UrlAndMap option handler list \<Rightarrow> string list \<Rightarrow> nat \<Rightarrow> StackState
    \<Rightarrow> store \<Rightarrow> bool" where
  "allInternal env mhs frames 0 state st = True"
| "allInternal env mhs frames (Suc k) state st =
     (case remapStackLine env mhs (frames ! Suc k) state st of (frame, state', st') \<Rightarrow>
        internal frame \<and> allInternal env mhs frames k state' st')"

lemma firstLoop_allInternal:
  "allInternal env mhs frames i state st \<Longrightarrow>
   \<exists>state' st'. firstLoop env mhs frames i state st = (frames, 0, state', st')"
  by (induction i arbitrary: state st) (auto split: prod.splits)

text \<open>
  C10.  When every frame line of a stack is classified internal, \<open>remapStack\<close> returns the
  text of the stack: the first loop ends with \<open>i = 0\<close> and has written nothing, and the
  second loop has nothing to do.  (The theorem also holds for a stack without frame
  lines.)
\<close>

theorem remapStack_all_internal:
  assumes "allInternal env mhs (splitNL text) (length (splitNL text) - 1)
             \<lparr>nextPosition = None, curPosition = None\<rparr> st"
  shows "fst (remapStack env mhs (Some text) st) = Some text"
proof -
  from firstLoop_allInternal [OF assms] obtain state' st' where
    "firstLoop env mhs (splitNL text) (length (splitNL text) - 1)
       \<lparr>nextPosition = None, curPosition = None\<rparr> st = (splitNL text, 0, state', st')"
    by blast
  then show ?thesis
    by (simp add: remapStack_def Let_def joinNL_splitNL)
qed

text \<open>Two internal frames; the line number 01 of the first is not rewritten to 1.\<close>

definition internalStack :: string where
  "internalStack = ''Error: x'' @ [CHR 0x0A] @ ''   at f (internal/a.js:01:1)''
     @ [CHR 0x0A] @ ''   at g (internal/b.js:2:2)''"

theorem remapStack_all_internal_witness:
  "allInternal emptyDisk (retrieveMapHandlers emptyDisk) (splitNL internalStack)
     (length (splitNL internalStack) - 1) \<lparr>nextPosition = None, curPosition = None\<rparr> emptyStore
   \<and> length (splitNL internalStack) = 3
   \<and> fst (remapStack emptyDisk (retrieveMapHandlers emptyDisk) (Some internalStack) emptyStore)
       = Some internalStack"
proof -
  have a: "allInternal emptyDisk (retrieveMapHandlers emptyDisk) (splitNL internalStack)
     (length (splitNL internalStack) - 1) \<lparr>nextPosition = None, curPosition = None\<rparr> emptyStore"
    by code_simp
  have l: "length (splitNL internalStack) = 3" by code_simp
  from remapStack_all_internal [OF a] a l show ?thesis by simp
qed

section \<open>Trailing internal frames\<close>

text \<open>
  A disk with two generations of source maps: a.js is compiled from b.js, which is itself
  compiled from c.ts.  \<open>dirnameOf\<close> and \<open>resolveIn\<close> are \<^verbatim>\<open>path.dirname\<close> and
  \<^verbatim>\<open>path.resolve\<close> on the paths of this disk: absolute paths of two segments, and names
  relative to a directory.
\<close>

definition dirnameOf :: "string \<Rightarrow> string" where
  "dirnameOf p = rev (tl (dropWhile (\<lambda>c. c \<noteq> CHR ''/'') (rev p)))"

definition resolveIn :: "string \<Rightarrow> string \<Rightarrow> string" where
  "resolveIn dir url = (if take 1 url = ''/'' then url else dir @ ''/'' @ url)"

definition chainedFiles :: "(string \<times> string) list" where
  "chainedFiles =
     [(''/app/a.js'', ''//# sourceMappingURL=a.js.map''), (''/app/a.js.map'', ''A''),
      (''/app/b.js'', ''//# sourceMappingURL=b.js.map''), (''/app/b.js.map'', ''B'')]"

definition consumerTo :: "string \<Rightarrow> int \<Rightarrow> SourceMapConsumer" where
  "consumerTo src ln = \<lparr>sources = [src], sourceContentFor = (\<lambda>s. None),
     originalPositionFor = (\<lambda>p. \<lparr>o_source = Some src, o_line = ln, o_column = 0\<rparr>)\<rparr>"

definition chainedDisk :: env where
  "chainedDisk = \<lparr>existsSync = (\<lambda>p. map_of chainedFiles p \<noteq> None),
     readFileSync = (\<lambda>p. case map_of chainedFiles p of None \<Rightarrow> Inl IOError | Some c \<Rightarrow> Inr c),
     dirname = dirnameOf, resolve = resolveIn, base64ToString = (\<lambda>b. b),
     newSourceMapConsumer =
       (\<lambda>t. if t = ''A'' then consumerTo ''b.js'' 10 else consumerTo ''c.ts'' 20)\<rparr>"

definition userInternalInternal :: string where
  "userInternalInternal = ''Error: x'' @ [CHR 0x0A] @ ''   at f (/app/a.js:1:1)''
     @ [CHR 0x0A] @ ''   at g (internal/x.js:2:2)'' @ [CHR 0x0A] @ ''   at h (internal/y.js:3:3)''"

definition internalUserInternal :: string where
  "internalUserInternal = ''Error: x'' @ [CHR 0x0A] @ ''   at g (internal/x.js:2:2)''
     @ [CHR 0x0A] @ ''   at f (/app/a.js:1:1)'' @ [CHR 0x0A] @ ''   at h (internal/y.js:3:3)''"


text \<open>What \<open>remapStack\<close> returns for stacks of three frame lines, in general.\<close>

lemma remapStack_user_internal_internal:
  assumes "splitNL text = [h, u, a, b]"
    and "remapStackLine env mhs b \<lparr>nextPosition = None, curPosition = None\<rparr> st = (fb, sb, stb)"
    and "internal fb"
    and "remapStackLine env mhs a sb stb = (fa, sa, sta)" and "internal fa"
    and "remapStackLine env mhs u sa sta = (fu, su, stu)" and "\<not> internal fu"
  shows "fst (remapStack env mhs (Some text) st) =
     Some (joinNL [h, stackLine (fst (remapStackLine env mhs (stackLine fu)
                      (su\<lparr>nextPosition := curPosition su\<rparr>) stu))])"
  using assms
  by (simp add: remapStack_def Let_def numeral_3_eq_3 split: prod.splits)

lemma remapStack_internal_user_internal:
  assumes "splitNL text = [h, a, u, b]"
    and "remapStackLine env mhs b \<lparr>nextPosition = None, curPosition = None\<rparr> st = (fb, sb, stb)"
    and "internal fb"
    and "remapStackLine env mhs u sb stb = (fu, su, stu)" and "\<not> internal fu"
    and "remapStackLine env mhs (stackLine fu) (su\<lparr>nextPosition := curPosition su\<rparr>) stu
           = (fu', su', stu')"
  shows "fst (remapStack env mhs (Some text) st) =
     Some (joinNL [h, stackLine (fst (remapStackLine env mhs a
                      (su'\<lparr>nextPosition := curPosition su'\<rparr>) stu')), stackLine fu'])"
  using assms
  by (simp add: remapStack_def Let_def numeral_3_eq_3 numeral_2_eq_2 split: prod.splits)

text \<open>
  C2.  A stack whose frame lines are a user frame followed by two internal frames, and a
  stack whose frame lines are an internal frame, a user frame and an internal frame, on
  the disk with two generations of source maps.  The frame parser turns the user frame
  \<^verbatim>\<open>   at f (/app/a.js:1:1)\<close> into \<^verbatim>\<open>   at f (/app/b.js:10:1)\<close>.  The trailing internal frames are
  dropped, but the first loop leaves its index on the user frame, so the
  second loop passes the remapped user frame through the frame parser a second time:
  \<open>remapStack\<close> returns \<^verbatim>\<open>   at f (/app/c.ts:20:1)\<close> for it.
\<close>

theorem remapStack_boundary_frame_twice:
  "(let r3 = remapStackLine chainedDisk (retrieveMapHandlers chainedDisk)
               ''   at h (internal/y.js:3:3)'' \<lparr>nextPosition = None, curPosition = None\<rparr> emptyStore;
        r2 = remapStackLine chainedDisk (retrieveMapHandlers chainedDisk)
               ''   at g (internal/x.js:2:2)'' (fst (snd r3)) (snd (snd r3));
        r1 = remapStackLine chainedDisk (retrieveMapHandlers chainedDisk)
               ''   at f (/app/a.js:1:1)'' (fst (snd r2)) (snd (snd r2))
    in fst r3 = \<lparr>stackLine = ''   at h (internal/y.js:3:3)'', internal = True\<rparr>
       \<and> fst r2 = \<lparr>stackLine = ''   at g (internal/x.js:2:2)'', internal = True\<rparr>
       \<and> fst r1 = \<lparr>stackLine = ''   at f (/app/b.js:10:1)'', internal = False\<rparr>)
   \<and> fst (remapStack chainedDisk (retrieveMapHandlers chainedDisk) (Some userInternalInternal)
           emptyStore)
       = Some (''Error: x'' @ [CHR 0x0A] @ ''   at f (/app/c.ts:20:1)'')
   \<and> (let r3 = remapStackLine chainedDisk (retrieveMapHandlers chainedDisk)
               ''   at h (internal/y.js:3:3)'' \<lparr>nextPosition = None, curPosition = None\<rparr> emptyStore;
            r2 = remapStackLine chainedDisk (retrieveMapHandlers chainedDisk)
               ''   at f (/app/a.js:1:1)'' (fst (snd r3)) (snd (snd r3))
        in fst r3 = \<lparr>stackLine = ''   at h (internal/y.js:3:3)'', internal = True\<rparr>
           \<and> fst r2 = \<lparr>stackLine = ''   at f (/app/b.js:10:1)'', internal = False\<rparr>)
   \<and> fst (remapStack chainedDisk (retrieveMapHandlers chainedDisk) (Some internalUserInternal)
           emptyStore)
       = Some (''Error: x'' @ [CHR 0x0A] @ ''   at g (internal/x.js:2:2)'' @ [CHR 0x0A]
               @ ''   at f (/app/c.ts:20:1)'')"
  by code_simp

section \<open>Numerals\<close>

lemma below_ten: "(m::nat) < 10 \<Longrightarrow> m \<in> {0, 1, 2, 3, 4, 5, 6, 7, 8, 9}"
  by (simp only: insert_iff empty_iff) presburger

lemma digitVal_digitChar: "digitVal (digitChar k) = k mod 10"
proof -
  have "k mod 10 < 10" by simp
  then have "k mod 10 \<in> {0, 1, 2, 3, 4, 5, 6, 7, 8, 9}" by (rule below_ten)
  then show ?thesis
    unfolding digitChar_def digitVal_def by (elim insertE emptyE) simp_all
qed

lemma isDigit_digitChar: "isDigit (digitChar k)"
proof -
  have "k mod 10 < 10" by simp
  then have "k mod 10 \<in> {0, 1, 2, 3, 4, 5, 6, 7, 8, 9}" by (rule below_ten)
  then show ?thesis
    unfolding digitChar_def isDigit_def by (elim insertE emptyE) simp_all
qed

lemma digitChar_digitVal:
  assumes "isDigit d"
  shows "digitVal d < 10" and "digitChar (digitVal d) = d" and "d \<noteq> CHR ''0'' \<Longrightarrow> 0 < digitVal d"
  using assms unfolding isDigit_def digitVal_def digitChar_def by auto

definition natOfDigits :: "string \<Rightarrow> nat" where
  "natOfDigits ds = foldl (\<lambda>a c. 10 * a + digitVal c) 0 ds"

lemma toNumber_natOfDigits: "toNumber ds = int (natOfDigits ds)"
  by (simp add: toNumber_def natOfDigits_def)

lemma natOfDigits_snoc: "natOfDigits (ds @ [d]) = 10 * natOfDigits ds + digitVal d"
  by (simp add: natOfDigits_def)

lemma natOfDigits_single: "natOfDigits [d] = digitVal d"
  by (simp add: natOfDigits_def)

lemma showNat_digits: "showNat n \<noteq> [] \<and> (\<forall>x\<in>set (showNat n). isDigit x)"
proof (induction n rule: showNat.induct)
  case (1 n)
  show ?case
  proof (cases "n < 10")
    case True
    then show ?thesis by (subst (1 2) showNat.simps) (simp add: isDigit_digitChar)
  next
    case False
    with 1 show ?thesis by (subst (1 2) showNat.simps) (simp add: isDigit_digitChar)
  qed
qed

lemma natOfDigits_showNat: "natOfDigits (showNat n) = n"
proof (induction n rule: showNat.induct)
  case (1 n)
  show ?case
  proof (cases "n < 10")
    case True
    then show ?thesis
      by (subst showNat.simps) (simp add: natOfDigits_single digitVal_digitChar)
  next
    case False
    with 1 have "natOfDigits (showNat (n div 10)) = n div 10" by simp
    with False show ?thesis
      by (subst showNat.simps) (simp add: natOfDigits_snoc digitVal_digitChar)
  qed
qed

text \<open>A numeral is canonical when it is what \<open>showInt\<close> prints: digits without a leading zero.\<close>

definition canonicalNumeral :: "string \<Rightarrow> bool" where
  "canonicalNumeral ds \<longleftrightarrow>
     ds = ''0'' \<or> (ds \<noteq> [] \<and> (\<forall>x\<in>set ds. isDigit x) \<and> hd ds \<noteq> CHR ''0'')"

lemma showNat_natOfDigits_aux:
  "ds \<noteq> [] \<Longrightarrow> \<forall>x\<in>set ds. isDigit x \<Longrightarrow> hd ds \<noteq> CHR ''0'' \<Longrightarrow>
   0 < natOfDigits ds \<and> showNat (natOfDigits ds) = ds"
proof (induction ds rule: rev_induct)
  case Nil
  then show ?case by simp
next
  case (snoc d ds)
  from snoc.prems have d: "isDigit d" by simp
  show ?case
  proof (cases "ds = []")
    case True
    with snoc.prems have "d \<noteq> CHR ''0''" by simp
    with d digitChar_digitVal [of d] True show ?thesis
      by (subst showNat.simps) (simp add: natOfDigits_single)
  next
    case False
    with snoc have ih: "0 < natOfDigits ds" "showNat (natOfDigits ds) = ds"
      by simp_all
    have v: "natOfDigits (ds @ [d]) = 10 * natOfDigits ds + digitVal d"
      by (rule natOfDigits_snoc)
    from digitChar_digitVal [OF d] have dv: "digitVal d < 10" "digitChar (digitVal d) = d"
      by simp_all
    have dc: "digitChar (10 * natOfDigits ds + digitVal d) = d"
      using dv by (simp add: digitChar_def)
    from ih dv have "\<not> 10 * natOfDigits ds + digitVal d < 10"
      "(10 * natOfDigits ds + digitVal d) div 10 = natOfDigits ds"
      by simp_all
    then have "showNat (10 * natOfDigits ds + digitVal d) = ds @ [d]"
      by (subst showNat.simps) (simp add: ih dc)
    with ih v show ?thesis by simp
  qed
qed

lemma showNat_0: "showNat 0 = ''0''"
  by (subst showNat.simps) (simp add: digitChar_def)

lemma showInt_toNumber:
  "showInt (toNumber ds) = showNat (natOfDigits ds)"
  "showInt (toNumber ds - 1 + 1) = showNat (natOfDigits ds)"
  by (simp_all add: showInt_def toNumber_natOfDigits)

lemma canonicalNumeral_showNat: "canonicalNumeral ds \<Longrightarrow> showNat (natOfDigits ds) = ds"
  unfolding canonicalNumeral_def
  using showNat_natOfDigits_aux [of ds]
  by (auto simp: natOfDigits_single digitVal_def showNat_0)

lemma canonicalNumeral_showNat': "canonicalNumeral (showNat n)"
proof (cases "n = 0")
  case True
  then show ?thesis by (simp add: canonicalNumeral_def showNat_0)
next
  case False
  have "hd (showNat n) \<noteq> CHR ''0''" if "0 < n" for n
    using that
  proof (induction n rule: showNat.induct)
    case (1 n)
    show ?case
    proof (cases "n < 10")
      case True
      with 1(2) below_ten [of n] have "n \<in> {1, 2, 3, 4, 5, 6, 7, 8, 9}" by auto
      then show ?thesis
        by (subst showNat.simps) (auto simp add: digitChar_def)
    next
      case False
      with 1 have "hd (showNat (n div 10)) \<noteq> CHR ''0''" by simp
      with False showNat_digits [of "n div 10"] show ?thesis
        by (subst showNat.simps) simp
    qed
  qed
  with False showNat_digits [of n] show ?thesis
    by (simp add: canonicalNumeral_def)
qed

section \<open>Stacks without source maps\<close>

text \<open>
  What \<open>remapStackLine\<close> returns for a line when no position is remapped: a frame line is
  written again from its parts, with the numerals of line and column printed anew.
\<close>

definition plainFrame :: "string \<Rightarrow> FrameInfo" where
  "plainFrame text =
     (case parseFrame text of
        None \<Rightarrow> \<lparr>stackLine = text, internal = False\<rparr>
      | Some (fnname, file, ln, cl) \<Rightarrow>
          \<lparr>stackLine = ''   at '' @ fnname @ '' ('' @ file @ '':'' @ showInt (toNumber ln)
             @ '':'' @ showInt (toNumber cl - 1 + 1) @ '')'',
           internal = startsWith file ''internal/''\<rparr>)"

definition frameFile :: "string \<Rightarrow> string option" where
  "frameFile text = map_option (\<lambda>(fnname, file, ln, cl). file) (parseFrame text)"

lemma not_paren_digit: "isDigit x \<Longrightarrow> x \<noteq> CHR ''(''"
  by (auto simp: isDigit_def)

lemma parseFrame_SomeI:
  assumes "fn \<noteq> []" "\<forall>x\<in>set fn. isDot x" "fn \<noteq> ''eval code''"
    and "file \<noteq> []" "\<forall>x\<in>set file. isDot x" "CHR ''('' \<notin> set file"
    and "ln \<noteq> []" "\<forall>x\<in>set ln. isDigit x" "cl \<noteq> []" "\<forall>x\<in>set cl. isDigit x"
    and "file @ '':'' @ ln @ '':'' @ cl \<noteq> ''native code:0:0''"
  shows "parseFrame (''   at '' @ fn @ '' ('' @ file @ '':'' @ ln @ '':'' @ cl @ '')'')
           = Some (fn, file, ln, cl)"
proof -
  let ?src = "file @ '':'' @ ln @ '':'' @ cl"
  have p: "CHR ''('' \<notin> set ?src"
    using assms(6,8,10) not_paren_digit by auto
  have n: "?src \<noteq> []" using assms(4) by simp
  from exec_reFrame_SomeI [OF assms(1,2) n p] obtain mt where
    mt: "exec False reFrame (''   at '' @ fn @ '' ('' @ ?src @ '')'') 0 = Some mt"
      "grp mt 1 = fn" "grp mt 2 = ?src"
    by blast
  from exec_reSourcePosition_SomeI [OF assms(4,5,7,8,9,10)] obtain sm where
    sm: "exec False reSourcePosition ?src 0 = Some sm"
      "grp sm 1 = file" "grp sm 2 = ln" "grp sm 3 = cl"
    by blast
  have c: "?src \<noteq> ''native code''"
  proof
    assume "?src = ''native code''"
    then have "CHR '':'' \<in> set ''native code''" by (metis in_set_conv_decomp append_Cons)
    then show False by simp
  qed
  have e: "''   at '' @ fn @ '' ('' @ file @ '':'' @ ln @ '':'' @ cl @ '')''
      = ''   at '' @ fn @ '' ('' @ ?src @ '')''"
    by simp
  show ?thesis
    unfolding e parseFrame_def using mt sm c assms(3,11) by simp
qed

lemma startsWith_append:
  "startsWith xs p \<Longrightarrow> startsWith (xs @ ys) p"
  unfolding startsWith_def by (metis append_eq_conv_conj append.assoc append_take_drop_id)

lemma parseFrame_plainFrame:
  assumes "parseFrame text = Some (fn, file, ln, cl)"
  shows "(parseFrame (stackLine (plainFrame text)) = None \<and> \<not> startsWith file ''internal/'')
       \<or> parseFrame (stackLine (plainFrame text))
            = Some (fn, file, showNat (natOfDigits ln), showNat (natOfDigits cl))"
proof -
  note d = parseFrame_SomeD [OF assms]
  let ?L = "showNat (natOfDigits ln)" and ?C = "showNat (natOfDigits cl)"
  have t: "stackLine (plainFrame text)
      = ''   at '' @ fn @ '' ('' @ file @ '':'' @ ?L @ '':'' @ ?C @ '')''"
    unfolding plainFrame_def assms by (simp add: showInt_toNumber)
  show ?thesis
  proof (cases "file @ '':'' @ ?L @ '':'' @ ?C = ''native code:0:0''")
    case True
    have "\<not> startsWith file ''internal/''"
    proof
      assume "startsWith file ''internal/''"
      then have "startsWith (file @ '':'' @ ?L @ '':'' @ ?C) ''internal/''"
        by (rule startsWith_append)
      then show False unfolding True by (simp add: startsWith_def)
    qed
    moreover have "parseFrame (''   at '' @ fn @ '' ('' @ ''native code:0:0'' @ '')'') = None"
    proof -
      from exec_reFrame_SomeI [OF d(2,3), of "''native code:0:0''"] obtain mt where
        "exec False reFrame (''   at '' @ fn @ '' ('' @ ''native code:0:0'' @ '')'') 0 = Some mt"
        "grp mt 2 = ''native code:0:0''"
        by auto
      then show ?thesis unfolding parseFrame_def by simp
    qed
    ultimately show ?thesis
      unfolding t using True by (metis append.assoc)
  next
    case False
    from parseFrame_SomeI [OF d(2,3,4,5,6,7) _ _ _ _ False] showNat_digits [of "natOfDigits ln"]
      showNat_digits [of "natOfDigits cl"]
    show ?thesis unfolding t by blast
  qed
qed

lemma plainFrame_idem: "plainFrame (stackLine (plainFrame text)) = plainFrame text"
proof (cases "parseFrame text")
  case None
  then show ?thesis by (simp add: plainFrame_def)
next
  case (Some q)
  obtain fn path ln cl where q: "q = (fn, path, ln, cl)" by (cases q)
  note s = Some [unfolded q]
  from parseFrame_plainFrame [OF s] show ?thesis
  proof
    assume "parseFrame (stackLine (plainFrame text)) = None \<and> \<not> startsWith path ''internal/''"
    then show ?thesis
      by (simp add: plainFrame_def s)
  next
    assume a: "parseFrame (stackLine (plainFrame text))
            = Some (fn, path, showNat (natOfDigits ln), showNat (natOfDigits cl))"
    show ?thesis
      unfolding plainFrame_def [of "stackLine (plainFrame text)"] a
      by (simp add: plainFrame_def s showInt_toNumber natOfDigits_showNat)
  qed
qed

lemma frameFile_plainFrame:
  "frameFile (stackLine (plainFrame text)) = Some path \<Longrightarrow> frameFile text = Some path"
proof (cases "parseFrame text")
  case None
  assume "frameFile (stackLine (plainFrame text)) = Some path"
  with None show ?thesis by (simp add: plainFrame_def)
next
  case (Some q)
  assume a: "frameFile (stackLine (plainFrame text)) = Some path"
  obtain fn p ln cl where q: "q = (fn, p, ln, cl)" by (cases q)
  note s = Some [unfolded q]
  from parseFrame_plainFrame [OF s] a show ?thesis
    by (auto simp: frameFile_def s)
qed

text \<open>
  \<open>unmapped mhs I st S\<close>: no source in \<open>S\<close> has a retrievable source map.  No decoded map
  is cached for it, and the handler chain returns \<^verbatim>\<open>null\<close> for it.  A handler reads the cache
  of file contents, so this is said of every cache that satisfies \<open>I\<close>, a property that the
  cache has and that the handlers keep.
\<close>

definition unmapped :: "UrlAndMap option handler list \<Rightarrow> ((string \<rightharpoonup> string) \<Rightarrow> bool) \<Rightarrow> store
    \<Rightarrow> string set \<Rightarrow> bool" where
  "unmapped mhs I st S \<longleftrightarrow>
     I (fileContentsCache st) \<and>
     (\<forall>src\<in>S. (\<forall>fc. I fc \<longrightarrow> fst (retrieveSourceMap mhs src fc) = None
                          \<and> I (snd (retrieveSourceMap mhs src fc))) \<and>
        (\<forall>sm. sourceMapCache st src = Some sm \<longrightarrow> sm_map sm = None))"

lemma mapSourcePosition_unmapped:
  assumes "unmapped mhs I st S" "source p \<in> S"
  shows "fst (mapSourcePosition env mhs p st) = p"
    and "unmapped mhs I (snd (mapSourcePosition env mhs p st)) S"
proof -
  from assms have r: "fst (retrieveSourceMap mhs (source p) (fileContentsCache st)) = None"
    and i: "I (snd (retrieveSourceMap mhs (source p) (fileContentsCache st)))"
    and c: "\<And>sm. sourceMapCache st (source p) = Some sm \<Longrightarrow> sm_map sm = None"
    unfolding unmapped_def by blast+
  show "fst (mapSourcePosition env mhs p st) = p"
    using r c
    by (auto simp: mapSourcePosition_def cachedSourceMap_def Let_def
        split: option.splits prod.splits)
  show "unmapped mhs I (snd (mapSourcePosition env mhs p st)) S"
  proof (cases "sourceMapCache st (source p)")
    case None
    with r have "snd (mapSourcePosition env mhs p st)
        = \<lparr>fileContentsCache = snd (retrieveSourceMap mhs (source p) (fileContentsCache st)),
           sourceMapCache = (sourceMapCache st)(source p \<mapsto> \<lparr>sm_url = None, sm_map = None\<rparr>)\<rparr>"
      by (auto simp: mapSourcePosition_def cachedSourceMap_def Let_def
          split: option.splits prod.splits)
    with assms(1) i show ?thesis unfolding unmapped_def by auto
  next
    case (Some sm)
    with c have "snd (mapSourcePosition env mhs p st) = st"
      by (simp add: mapSourcePosition_def cachedSourceMap_def)
    with assms(1) show ?thesis by simp
  qed
qed

lemma remapStackLine_unmapped:
  assumes "unmapped mhs I st S" "\<And>path. frameFile text = Some path \<Longrightarrow> path \<in> S"
  shows "fst (remapStackLine env mhs text state st) = plainFrame text"
    and "unmapped mhs I (snd (snd (remapStackLine env mhs text state st))) S"
proof -
  show "fst (remapStackLine env mhs text state st) = plainFrame text"
  proof (cases "parseFrame text")
    case None
    then show ?thesis unfolding remapStackLine_parseFrame plainFrame_def by simp
  next
    case (Some q)
    obtain fn path ln cl where q: "q = (fn, path, ln, cl)" by (cases q)
    note s = Some [unfolded q]
    then have "path \<in> S" using assms(2) by (simp add: frameFile_def)
    from mapSourcePosition_unmapped(1) [OF assms(1), of
        "\<lparr>source = path, line = toNumber ln, column = toNumber cl - 1\<rparr>" env] this
    show ?thesis
      unfolding remapStackLine_parseFrame plainFrame_def s
      by (simp add: case_prod_beta)
  qed
  show "unmapped mhs I (snd (snd (remapStackLine env mhs text state st))) S"
  proof (cases "parseFrame text")
    case None
    then show ?thesis unfolding remapStackLine_parseFrame using assms(1) by simp
  next
    case (Some q)
    obtain fn path ln cl where q: "q = (fn, path, ln, cl)" by (cases q)
    note s = Some [unfolded q]
    then have "path \<in> S" using assms(2) by (simp add: frameFile_def)
    from mapSourcePosition_unmapped(2) [OF assms(1), of
        "\<lparr>source = path, line = toNumber ln, column = toNumber cl - 1\<rparr>" env] this
    show ?thesis
      unfolding remapStackLine_parseFrame s
      by (simp add: case_prod_beta)
  qed
qed

text \<open>The two loops and \<open>remapStack\<close> when no position is remapped.\<close>

fun firstLoopPlain :: "string list \<Rightarrow> nat \<Rightarrow> string list \<times> nat" where
  "firstLoopPlain frames 0 = (frames, 0)"
| "firstLoopPlain frames (Suc k) =
     (if internal (plainFrame (frames ! Suc k)) then firstLoopPlain frames k
      else ((take (Suc k + 1) frames)[Suc k := stackLine (plainFrame (frames ! Suc k))], Suc k))"

fun secondLoopPlain :: "string list \<Rightarrow> nat \<Rightarrow> string list" where
  "secondLoopPlain frames 0 = frames"
| "secondLoopPlain frames (Suc k) =
     secondLoopPlain (frames[Suc k := stackLine (plainFrame (frames ! Suc k))]) k"

definition remapStackPlain :: "string \<Rightarrow> string" where
  "remapStackPlain text =
     (let frames = splitNL text
      in case firstLoopPlain frames (length frames - 1) of (frames1, i) \<Rightarrow>
           joinNL (secondLoopPlain frames1 i))"

lemma firstLoop_unmapped:
  assumes "unmapped mhs I st S"
    and "\<And>j path. 1 \<le> j \<Longrightarrow> j \<le> i \<Longrightarrow> frameFile (frames ! j) = Some path \<Longrightarrow> path \<in> S"
  shows "\<exists>state' st'. firstLoop env mhs frames i state st
           = (fst (firstLoopPlain frames i), snd (firstLoopPlain frames i), state', st')
         \<and> unmapped mhs I st' S"
  using assms
proof (induction i arbitrary: state st)
  case 0
  then show ?case by simp
next
  case (Suc k)
  obtain frame state1 st1 where r: "remapStackLine env mhs (frames ! Suc k) state st
      = (frame, state1, st1)"
    by (cases "remapStackLine env mhs (frames ! Suc k) state st") auto
  from remapStackLine_unmapped [OF Suc.prems(1), of "frames ! Suc k" env state] Suc.prems(2) r
  have f: "frame = plainFrame (frames ! Suc k)" and u: "unmapped mhs I st1 S"
    by auto
  show ?case
  proof (cases "internal frame")
    case True
    from Suc.IH [OF u, of state1] Suc.prems(2)
    obtain state' st' where "firstLoop env mhs frames k state1 st1
           = (fst (firstLoopPlain frames k), snd (firstLoopPlain frames k), state', st')"
      "unmapped mhs I st' S"
      by auto
    with True r f show ?thesis by simp
  next
    case False
    with r f u show ?thesis by simp
  qed
qed

lemma secondLoop_unmapped:
  assumes "unmapped mhs I st S"
    and "\<And>j path. 1 \<le> j \<Longrightarrow> j \<le> i \<Longrightarrow> frameFile (frames ! j) = Some path \<Longrightarrow> path \<in> S"
    and "i < length frames"
  shows "\<exists>state' st'. secondLoop env mhs frames i state st
           = (secondLoopPlain frames i, state', st') \<and> unmapped mhs I st' S"
  using assms
proof (induction i arbitrary: frames state st)
  case 0
  then show ?case by simp
next
  case (Suc k)
  obtain frame state1 st1 where r: "remapStackLine env mhs (frames ! Suc k) state st
      = (frame, state1, st1)"
    by (cases "remapStackLine env mhs (frames ! Suc k) state st") auto
  from remapStackLine_unmapped [OF Suc.prems(1), of "frames ! Suc k" env state] Suc.prems(2) r
  have f: "frame = plainFrame (frames ! Suc k)" and u: "unmapped mhs I st1 S"
    by auto
  let ?frames = "frames[Suc k := stackLine frame]"
  have "\<exists>state' st'. secondLoop env mhs ?frames k (state1\<lparr>nextPosition := curPosition state1\<rparr>) st1
           = (secondLoopPlain ?frames k, state', st') \<and> unmapped mhs I st' S"
  proof (rule Suc.IH [OF u])
    fix j path
    assume "1 \<le> j" "j \<le> k" "frameFile (?frames ! j) = Some path"
    with Suc.prems(2) [of j path] show "path \<in> S" by simp
  next
    from Suc.prems(3) show "k < length ?frames" by simp
  qed
  with r f show ?case by simp
qed

lemma firstLoopPlain_cases:
  "(firstLoopPlain frames i = (frames, 0)
      \<and> (\<forall>j. 1 \<le> j \<and> j \<le> i \<longrightarrow> internal (plainFrame (frames ! j))))
   \<or> (\<exists>b. 1 \<le> b \<and> b \<le> i \<and> \<not> internal (plainFrame (frames ! b))
         \<and> firstLoopPlain frames i
             = ((take (Suc b) frames)[b := stackLine (plainFrame (frames ! b))], b))"
proof (induction i)
  case 0
  then show ?case by simp
next
  case (Suc k)
  show ?case
  proof (cases "internal (plainFrame (frames ! Suc k))")
    case True
    from Suc show ?thesis
    proof
      assume "firstLoopPlain frames k = (frames, 0)
        \<and> (\<forall>j. 1 \<le> j \<and> j \<le> k \<longrightarrow> internal (plainFrame (frames ! j)))"
      with True have "firstLoopPlain frames (Suc k) = (frames, 0)
        \<and> (\<forall>j. 1 \<le> j \<and> j \<le> Suc k \<longrightarrow> internal (plainFrame (frames ! j)))"
        by (auto simp: le_Suc_eq)
      then show ?thesis by blast
    next
      assume "\<exists>b. 1 \<le> b \<and> b \<le> k \<and> \<not> internal (plainFrame (frames ! b))
         \<and> firstLoopPlain frames k
             = ((take (Suc b) frames)[b := stackLine (plainFrame (frames ! b))], b)"
      then obtain b where "1 \<le> b" "b \<le> k" "\<not> internal (plainFrame (frames ! b))"
        "firstLoopPlain frames k
             = ((take (Suc b) frames)[b := stackLine (plainFrame (frames ! b))], b)"
        by blast
      with True have "1 \<le> b \<and> b \<le> Suc k \<and> \<not> internal (plainFrame (frames ! b))
         \<and> firstLoopPlain frames (Suc k)
             = ((take (Suc b) frames)[b := stackLine (plainFrame (frames ! b))], b)"
        by simp
      then show ?thesis by blast
    qed
  next
    case False
    then have "1 \<le> Suc k \<and> Suc k \<le> Suc k \<and> \<not> internal (plainFrame (frames ! Suc k))
         \<and> firstLoopPlain frames (Suc k)
             = ((take (Suc (Suc k)) frames)[Suc k := stackLine (plainFrame (frames ! Suc k))], Suc k)"
      by simp
    then show ?thesis by blast
  qed
qed

lemma secondLoopPlain_nth:
  "i < length frames \<Longrightarrow>
   length (secondLoopPlain frames i) = length frames
   \<and> (\<forall>j<length frames. secondLoopPlain frames i ! j
        = (if 1 \<le> j \<and> j \<le> i then stackLine (plainFrame (frames ! j)) else frames ! j))"
proof (induction i arbitrary: frames)
  case 0
  then show ?case by simp
next
  case (Suc k)
  let ?frames = "frames[Suc k := stackLine (plainFrame (frames ! Suc k))]"
  from Suc.prems have "k < length ?frames" by simp
  from Suc.IH [OF this] Suc.prems show ?case
    by (auto simp: nth_list_update le_Suc_eq)
qed

lemma secondLoopPlain_fixed:
  "(\<And>j. 1 \<le> j \<Longrightarrow> j \<le> i \<Longrightarrow> stackLine (plainFrame (frames ! j)) = frames ! j) \<Longrightarrow>
   secondLoopPlain frames i = frames"
  by (induction i) simp_all

definition frameFiles :: "string \<Rightarrow> string set" where
  "frameFiles text = {path. \<exists>ln\<in>set (tl (splitNL text)). frameFile ln = Some path}"

lemma nth_tl_mem: "1 \<le> j \<Longrightarrow> j < length xs \<Longrightarrow> xs ! j \<in> set (tl xs)"
  by (cases xs) (auto simp: nth_Cons split: nat.splits)

lemma remapStack_unmapped:
  assumes "unmapped mhs I st S" "frameFiles text \<subseteq> S"
  shows "fst (remapStack env mhs (Some text) st) = Some (remapStackPlain text)"
    and "unmapped mhs I (snd (remapStack env mhs (Some text) st)) S"
proof -
  let ?frames = "splitNL text"
  let ?n = "length ?frames - 1"
  have n: "?n < length ?frames"
    using splitNL_not_Nil [of "text"] by (cases "?frames") auto
  have src: "path \<in> S" if "1 \<le> j" "j \<le> ?n" "frameFile (?frames ! j) = Some path" for j path
  proof -
    from that n have "?frames ! j \<in> set (tl ?frames)" by (intro nth_tl_mem) auto
    with that(3) assms(2) show ?thesis unfolding frameFiles_def by blast
  qed
  obtain frames1 i where p: "firstLoopPlain ?frames ?n = (frames1, i)"
    by (cases "firstLoopPlain ?frames ?n") auto
  from firstLoop_unmapped [OF assms(1), of "?n" "?frames" env "\<lparr>nextPosition = None, curPosition = None\<rparr>"]
    src p
  obtain state1 st1 where
    f: "firstLoop env mhs ?frames ?n \<lparr>nextPosition = None, curPosition = None\<rparr> st
          = (frames1, i, state1, st1)"
    and u1: "unmapped mhs I st1 S"
    by auto
  have i: "i < length frames1"
    and src1: "\<And>j path. 1 \<le> j \<Longrightarrow> j \<le> i \<Longrightarrow> frameFile (frames1 ! j) = Some path \<Longrightarrow> path \<in> S"
  proof -
    from firstLoopPlain_cases [of "?frames" "?n"]
    have "i < length frames1
      \<and> (\<forall>j path. 1 \<le> j \<longrightarrow> j \<le> i \<longrightarrow> frameFile (frames1 ! j) = Some path \<longrightarrow> path \<in> S)"
    proof
      assume "firstLoopPlain ?frames ?n = (?frames, 0)
        \<and> (\<forall>j. 1 \<le> j \<and> j \<le> ?n \<longrightarrow> internal (plainFrame (?frames ! j)))"
      with p have "frames1 = ?frames" "i = 0" by simp_all
      then show ?thesis by simp
    next
      assume "\<exists>b. 1 \<le> b \<and> b \<le> ?n \<and> \<not> internal (plainFrame (?frames ! b))
         \<and> firstLoopPlain ?frames ?n
             = ((take (Suc b) ?frames)[b := stackLine (plainFrame (?frames ! b))], b)"
      then obtain b where b: "1 \<le> b" "b \<le> ?n"
        and e: "firstLoopPlain ?frames ?n
             = ((take (Suc b) ?frames)[b := stackLine (plainFrame (?frames ! b))], b)"
        by blast
      with p have f1: "frames1 = (take (Suc b) ?frames)[b := stackLine (plainFrame (?frames ! b))]"
        and ib: "i = b" by simp_all
      have l: "length frames1 = Suc b" unfolding f1 using b n by simp
      have "path \<in> S" if "1 \<le> j" "j \<le> i" "frameFile (frames1 ! j) = Some path" for j path
      proof (cases "j = b")
        case True
        with that(3) have "frameFile (stackLine (plainFrame (?frames ! b))) = Some path"
          unfolding f1 using b n by simp
        then have "frameFile (?frames ! b) = Some path" by (rule frameFile_plainFrame)
        with src [of b path] b show ?thesis by simp
      next
        case False
        with that ib have "j < b" by simp
        with that(3) have "frameFile (?frames ! j) = Some path"
          unfolding f1 by simp
        with src [of j path] that(1) \<open>j < b\<close> b show ?thesis by simp
      qed
      with l ib show ?thesis by simp
    qed
    then show "i < length frames1"
      and "\<And>j path. 1 \<le> j \<Longrightarrow> j \<le> i \<Longrightarrow> frameFile (frames1 ! j) = Some path \<Longrightarrow> path \<in> S"
      by blast+
  qed
  have "\<exists>state' st'. secondLoop env mhs frames1 i state1 st1
           = (secondLoopPlain frames1 i, state', st') \<and> unmapped mhs I st' S"
  proof (rule secondLoop_unmapped [OF u1 _ i])
    fix j path
    assume "1 \<le> j" "j \<le> i" "frameFile (frames1 ! j) = Some path"
    then show "path \<in> S" by (rule src1)
  qed
  then obtain state2 st2 where s: "secondLoop env mhs frames1 i state1 st1
      = (secondLoopPlain frames1 i, state2, st2)"
    and u2: "unmapped mhs I st2 S"
    by blast
  from f s p show "fst (remapStack env mhs (Some text) st) = Some (remapStackPlain text)"
    by (simp add: remapStack_def remapStackPlain_def Let_def)
  from f s u2 show "unmapped mhs I (snd (remapStack env mhs (Some text) st)) S"
    by (simp add: remapStack_def Let_def)
qed

definition canonicalFrame :: "string \<Rightarrow> bool" where
  "canonicalFrame text \<longleftrightarrow>
     (case parseFrame text of
        None \<Rightarrow> True
      | Some (fnname, file, ln, cl) \<Rightarrow> canonicalNumeral ln \<and> canonicalNumeral cl)"

lemma canonicalFrame_fixed:
  assumes "canonicalFrame text"
  shows "stackLine (plainFrame text) = text"
proof (cases "parseFrame text")
  case None
  then show ?thesis by (simp add: plainFrame_def)
next
  case (Some q)
  obtain fn path ln cl where q: "q = (fn, path, ln, cl)" by (cases q)
  note s = Some [unfolded q]
  from assms s have c: "showNat (natOfDigits ln) = ln" "showNat (natOfDigits cl) = cl"
    by (simp_all add: canonicalFrame_def canonicalNumeral_showNat)
  have "stackLine (plainFrame text)
      = ''   at '' @ fn @ '' ('' @ path @ '':'' @ ln @ '':'' @ cl @ '')''"
    by (simp add: plainFrame_def s showInt_toNumber c)
  also have "\<dots> = text"
    by (rule parseFrame_SomeD(1) [OF s, symmetric])
  finally show ?thesis .
qed

lemma remapStackPlain_fixed:
  assumes "(\<forall>j. 1 \<le> j \<and> j \<le> length (splitNL text) - 1
              \<longrightarrow> internal (plainFrame (splitNL text ! j)))
     \<or> (\<not> internal (plainFrame (splitNL text ! (length (splitNL text) - 1)))
        \<and> (\<forall>j. 1 \<le> j \<and> j \<le> length (splitNL text) - 1
              \<longrightarrow> stackLine (plainFrame (splitNL text ! j)) = splitNL text ! j))"
  shows "remapStackPlain text = text"
proof -
  let ?frames = "splitNL text"
  let ?n = "length ?frames - 1"
  have n: "?n < length ?frames"
    using splitNL_not_Nil [of "text"] by (cases "?frames") auto
  from assms show ?thesis
  proof
    assume a: "\<forall>j. 1 \<le> j \<and> j \<le> ?n \<longrightarrow> internal (plainFrame (?frames ! j))"
    from firstLoopPlain_cases [of "?frames" "?n"] a
    have "firstLoopPlain ?frames ?n = (?frames, 0)" by blast
    then show ?thesis
      by (simp add: remapStackPlain_def Let_def joinNL_splitNL)
  next
    assume a: "\<not> internal (plainFrame (?frames ! ?n))
        \<and> (\<forall>j. 1 \<le> j \<and> j \<le> ?n \<longrightarrow> stackLine (plainFrame (?frames ! j)) = ?frames ! j)"
    show ?thesis
    proof (cases "?n")
      case 0
      then show ?thesis
        by (simp add: remapStackPlain_def Let_def joinNL_splitNL)
    next
      case (Suc k)
      with a have "stackLine (plainFrame (?frames ! Suc k)) = ?frames ! Suc k"
        "\<not> internal (plainFrame (?frames ! Suc k))"
        by simp_all
      moreover from Suc n have "take (Suc k + 1) ?frames = ?frames" by simp
      ultimately have f: "firstLoopPlain ?frames (Suc k) = (?frames, Suc k)"
        by simp
      from a Suc have "secondLoopPlain ?frames (Suc k) = ?frames"
        by (intro secondLoopPlain_fixed) simp
      with f Suc show ?thesis
        by (simp add: remapStackPlain_def Let_def joinNL_splitNL)
    qed
  qed
qed

lemma splitNL_no_LF: "l \<in> set (splitNL s) \<Longrightarrow> CHR 0x0A \<notin> set l"
proof (induction s arbitrary: l)
  case Nil
  then show ?case by simp
next
  case (Cons c cs)
  then show ?case
    by (cases "splitNL cs") (auto split: if_splits)
qed

lemma splitNL_append_LF:
  "CHR 0x0A \<notin> set l \<Longrightarrow> splitNL (l @ CHR 0x0A # s) = l # splitNL s"
  by (induction l) auto

lemma splitNL_single: "CHR 0x0A \<notin> set l \<Longrightarrow> splitNL l = [l]"
  by (induction l) auto

lemma splitNL_joinNL:
  "ls \<noteq> [] \<Longrightarrow> \<forall>l\<in>set ls. CHR 0x0A \<notin> set l \<Longrightarrow> splitNL (joinNL ls) = ls"
proof (induction ls rule: joinNL.induct)
  case 1
  then show ?case by simp
next
  case (2 l)
  then show ?case by (simp add: splitNL_single)
next
  case (3 l v va)
  then show ?case by (simp add: splitNL_append_LF)
qed

lemma isDot_not_LF: "isDot x \<Longrightarrow> x \<noteq> CHR 0x0A"
  by (auto simp: isDot_def isLineTerminator_def)

lemma isDigit_not_LF: "isDigit x \<Longrightarrow> x \<noteq> CHR 0x0A"
  by (auto simp: isDigit_def)

lemma plainFrame_no_LF:
  assumes "CHR 0x0A \<notin> set text"
  shows "CHR 0x0A \<notin> set (stackLine (plainFrame text))"
proof (cases "parseFrame text")
  case None
  with assms show ?thesis by (simp add: plainFrame_def)
next
  case (Some q)
  obtain fn path ln cl where q: "q = (fn, path, ln, cl)" by (cases q)
  note s = Some [unfolded q]
  note d = parseFrame_SomeD [OF s]
  from d(3,6) isDot_not_LF have "CHR 0x0A \<notin> set fn" "CHR 0x0A \<notin> set path" by blast+
  moreover from showNat_digits isDigit_not_LF
  have "CHR 0x0A \<notin> set (showNat (natOfDigits ln))" "CHR 0x0A \<notin> set (showNat (natOfDigits cl))"
    by blast+
  ultimately show ?thesis
    by (simp add: plainFrame_def s showInt_toNumber)
qed

text \<open>
  The lines of the result of \<open>remapStackPlain\<close>: the text itself when every frame line is
  internal; otherwise the lines up to the last frame line \<open>b\<close> that is not internal, each
  frame line written anew.
\<close>

lemma remapStackPlain_lines:
  "remapStackPlain text = text
   \<or> (\<exists>b frames2. 1 \<le> b \<and> b \<le> length (splitNL text) - 1
         \<and> \<not> internal (plainFrame (splitNL text ! b))
         \<and> splitNL (remapStackPlain text) = frames2 \<and> length frames2 = Suc b
         \<and> (\<forall>j. 1 \<le> j \<and> j \<le> b
               \<longrightarrow> frames2 ! j = stackLine (plainFrame (splitNL text ! j))))"
proof -
  let ?frames = "splitNL text"
  let ?n = "length ?frames - 1"
  let ?P = "\<lambda>l. stackLine (plainFrame l)"
  have n: "?n < length ?frames"
    using splitNL_not_Nil [of "text"] by (cases "?frames") auto
  from firstLoopPlain_cases [of "?frames" "?n"] show ?thesis
  proof
    assume "firstLoopPlain ?frames ?n = (?frames, 0)
      \<and> (\<forall>j. 1 \<le> j \<and> j \<le> ?n \<longrightarrow> internal (plainFrame (?frames ! j)))"
    then have "remapStackPlain text = text"
      by (simp add: remapStackPlain_def Let_def joinNL_splitNL)
    then show ?thesis by (rule disjI1)
  next
    assume "\<exists>b. 1 \<le> b \<and> b \<le> ?n \<and> \<not> internal (plainFrame (?frames ! b))
         \<and> firstLoopPlain ?frames ?n = ((take (Suc b) ?frames)[b := ?P (?frames ! b)], b)"
    then obtain b where b: "1 \<le> b" "b \<le> ?n" and ni: "\<not> internal (plainFrame (?frames ! b))"
      and f: "firstLoopPlain ?frames ?n = ((take (Suc b) ?frames)[b := ?P (?frames ! b)], b)"
      by blast
    define frames1 where "frames1 = (take (Suc b) ?frames)[b := ?P (?frames ! b)]"
    define frames2 where "frames2 = secondLoopPlain frames1 b"
    have l1: "length frames1 = Suc b" unfolding frames1_def using b n by simp
    have out: "remapStackPlain text = joinNL frames2"
      unfolding remapStackPlain_def Let_def f frames2_def frames1_def by simp
    have nth1: "frames1 ! j = (if j = b then ?P (?frames ! b) else ?frames ! j)" if "j \<le> b" for j
      unfolding frames1_def using that b n by (simp add: nth_list_update)
    from secondLoopPlain_nth [of b frames1] l1
    have l2: "length frames2 = Suc b"
      and nth2: "\<And>j. j \<le> b \<Longrightarrow> frames2 ! j = (if 1 \<le> j then ?P (frames1 ! j) else frames1 ! j)"
      unfolding frames2_def by auto
    have nth3: "frames2 ! j = ?P (?frames ! j)" if "1 \<le> j" "j \<le> b" for j
      using nth2 [OF that(2)] nth1 [OF that(2)] that(1) by (simp add: plainFrame_idem)
    have nolf: "\<forall>l\<in>set frames2. CHR 0x0A \<notin> set l"
    proof
      fix l assume "l \<in> set frames2"
      then obtain j where j: "j < length frames2" "l = frames2 ! j"
        by (auto simp: in_set_conv_nth)
      with l2 have jb: "j \<le> b" by simp
      with b n have "?frames ! j \<in> set ?frames" by simp
      then have o: "CHR 0x0A \<notin> set (?frames ! j)" by (rule splitNL_no_LF)
      show "CHR 0x0A \<notin> set l"
      proof (cases "1 \<le> j")
        case True
        from nth3 [OF True jb] o j(2) show ?thesis by (simp add: plainFrame_no_LF)
      next
        case False
        with nth2 [OF jb] nth1 [OF jb] b o j(2) show ?thesis by simp
      qed
    qed
    from l2 have "frames2 \<noteq> []" by auto
    then have sp: "splitNL (joinNL frames2) = frames2" using nolf by (rule splitNL_joinNL)
    from b ni sp l2 nth3 have "1 \<le> b \<and> b \<le> length (splitNL text) - 1
         \<and> \<not> internal (plainFrame (splitNL text ! b))
         \<and> splitNL (remapStackPlain text) = frames2 \<and> length frames2 = Suc b
         \<and> (\<forall>j. 1 \<le> j \<and> j \<le> b
               \<longrightarrow> frames2 ! j = stackLine (plainFrame (splitNL text ! j)))"
      unfolding out by simp
    then show ?thesis by blast
  qed
qed

lemma remapStackPlain_idem: "remapStackPlain (remapStackPlain text) = remapStackPlain text"
  using remapStackPlain_lines [of "text"]
proof
  assume "remapStackPlain text = text"
  then show ?thesis by simp
next
  assume "\<exists>b frames2. 1 \<le> b \<and> b \<le> length (splitNL text) - 1
         \<and> \<not> internal (plainFrame (splitNL text ! b))
         \<and> splitNL (remapStackPlain text) = frames2 \<and> length frames2 = Suc b
         \<and> (\<forall>j. 1 \<le> j \<and> j \<le> b
               \<longrightarrow> frames2 ! j = stackLine (plainFrame (splitNL text ! j)))"
  then obtain b frames2 where b: "1 \<le> b" "b \<le> length (splitNL text) - 1"
    and ni: "\<not> internal (plainFrame (splitNL text ! b))"
    and sp: "splitNL (remapStackPlain text) = frames2" and l2: "length frames2 = Suc b"
    and nth3: "\<And>j. 1 \<le> j \<Longrightarrow> j \<le> b \<Longrightarrow> frames2 ! j = stackLine (plainFrame (splitNL text ! j))"
    by blast
  show ?thesis
  proof (rule remapStackPlain_fixed, rule disjI2, unfold sp l2, intro conjI allI impI)
    from nth3 [of b] b ni show "\<not> internal (plainFrame (frames2 ! (Suc b - 1)))"
      by (simp add: plainFrame_idem)
  next
    fix j assume "1 \<le> j \<and> j \<le> Suc b - 1"
    then have "frames2 ! j = stackLine (plainFrame (splitNL text ! j))"
      using nth3 [of j] by simp
    then show "stackLine (plainFrame (frames2 ! j)) = frames2 ! j"
      by (simp add: plainFrame_idem)
  qed
qed

lemma frameFiles_remapStackPlain: "frameFiles (remapStackPlain text) \<subseteq> frameFiles text"
  using remapStackPlain_lines [of "text"]
proof
  assume "remapStackPlain text = text"
  then show ?thesis by (simp only: subset_refl)
next
  assume "\<exists>b frames2. 1 \<le> b \<and> b \<le> length (splitNL text) - 1
         \<and> \<not> internal (plainFrame (splitNL text ! b))
         \<and> splitNL (remapStackPlain text) = frames2 \<and> length frames2 = Suc b
         \<and> (\<forall>j. 1 \<le> j \<and> j \<le> b
               \<longrightarrow> frames2 ! j = stackLine (plainFrame (splitNL text ! j)))"
  then obtain b frames2 where b: "1 \<le> b" "b \<le> length (splitNL text) - 1"
    and sp: "splitNL (remapStackPlain text) = frames2" and l2: "length frames2 = Suc b"
    and nth3: "\<And>j. 1 \<le> j \<Longrightarrow> j \<le> b \<Longrightarrow> frames2 ! j = stackLine (plainFrame (splitNL text ! j))"
    by blast
  have n: "length (splitNL text) - 1 < length (splitNL text)"
    using splitNL_not_Nil [of "text"] by (cases "splitNL text") auto
  show ?thesis
  proof
    fix path assume "path \<in> frameFiles (remapStackPlain text)"
    then obtain l where l: "l \<in> set (tl frames2)" "frameFile l = Some path"
      unfolding frameFiles_def sp by blast
    from l(1) have "\<exists>j<length (tl frames2). tl frames2 ! j = l"
      by (simp only: in_set_conv_nth)
    then obtain j where j: "j < length (tl frames2)" "tl frames2 ! j = l"
      by blast
    from j(1) l2 have jb: "1 \<le> Suc j" "Suc j \<le> b"
      by simp_all
    from j have lj: "l = frames2 ! Suc j"
      by (simp add: nth_tl)
    from nth3 [OF jb] lj l(2)
    have "frameFile (stackLine (plainFrame (splitNL text ! Suc j))) = Some path"
      by simp
    then have "frameFile (splitNL text ! Suc j) = Some path"
      by (rule frameFile_plainFrame)
    moreover from jb b n have "splitNL text ! Suc j \<in> set (tl (splitNL text))"
      by (intro nth_tl_mem) simp_all
    ultimately show "path \<in> frameFiles text"
      unfolding frameFiles_def by blast
  qed
qed


text \<open>On a disk without files, when the cache holds empty contents only, the handlers of the
  module find no map, and the cache then holds empty contents only.\<close>

definition onlyEmptyFiles :: "(string \<rightharpoonup> string) \<Rightarrow> bool" where
  "onlyEmptyFiles fc \<longleftrightarrow> (\<forall>k v. fc k = Some v \<longrightarrow> v = [])"

lemma scanLast_null: "scanLast ''null'' 0 None = None"
  by code_simp

lemma retrieveSourceMap_emptyDisk:
  assumes "onlyEmptyFiles fc"
  shows "fst (retrieveSourceMap (retrieveMapHandlers emptyDisk) src fc) = None"
    and "onlyEmptyFiles (snd (retrieveSourceMap (retrieveMapHandlers emptyDisk) src fc))"
proof -
  have "retrieveFileHandler emptyDisk src fc = ([], fc)
      \<or> retrieveFileHandler emptyDisk src fc = ([], fc(normalizePath src \<mapsto> []))"
    using assms
    by (auto simp: retrieveFileHandler_def onlyEmptyFiles_def readOrEmpty_def readIfExists_def
        emptyDisk_def Let_def split: option.splits)
  then obtain fc' where h: "retrieveFileHandler emptyDisk src fc = ([], fc')"
    and e: "onlyEmptyFiles fc'"
    using assms by (auto simp: onlyEmptyFiles_def)
  have "retrieveSourceMap (retrieveMapHandlers emptyDisk) src fc = (None, fc')"
    by (simp add: retrieveSourceMap_def retrieveMapHandlers_def retrieveMapHandler_def
        retrieveSourceMapURL_def retrieveFile_def retrieveFileHandlers_def h scanLast_null)
  with e show "fst (retrieveSourceMap (retrieveMapHandlers emptyDisk) src fc) = None"
    and "onlyEmptyFiles (snd (retrieveSourceMap (retrieveMapHandlers emptyDisk) src fc))"
    by simp_all
qed

lemma unmapped_emptyDisk:
  "unmapped (retrieveMapHandlers emptyDisk) onlyEmptyFiles emptyStore S"
  unfolding unmapped_def
  by (auto simp: retrieveSourceMap_emptyDisk) (simp_all add: emptyStore_def onlyEmptyFiles_def)

definition leadingZeroStack :: string where
  "leadingZeroStack = ''Error: x'' @ [CHR 0x0A] @ ''   at f (a.js:01:1)''"

definition trailingInternalStack :: string where
  "trailingInternalStack = ''Error: x'' @ [CHR 0x0A] @ ''   at f (a.js:1:1)''
     @ [CHR 0x0A] @ ''   at g (internal/x.js:2:2)''"

definition unchangedStack :: string where
  "unchangedStack = ''Error: x'' @ [CHR 0x0A] @ ''   at g (internal/x.js:2:2)''
     @ [CHR 0x0A] @ ''   at f (a.js:1:1)''"



end
